theory Spec2Isabelle
  imports Main "HOL-Library.Word"
begin

unbundle bit_operations_syntax

section \<open>The DTMF power switch: data\<close>

text \<open>
  The sketch is embedded as it stands in its current revision (the one with the idle
  sleep, the supply-voltage report and the separate acknowledgment for a held relay).
  Unsigned long is a 32-bit word, uint8_t and char are 8-bit words; char is signed on
  the AVR compiler, so a comparison of a char reads the word with \<open>sint\<close>.
\<close>

type_synonym u8 = "8 word"
type_synonym u16 = "16 word"
type_synonym u32 = "32 word"

text \<open>
  The pin numbers P0 .. P5 and LED_BUILTIN come from a board header, so the pins are
  named symbolically.
\<close>

datatype pin = P0 | P2 | P3 | P4 | P5 | LED_BUILTIN

definition tonePin :: pin where "tonePin = P0"
definition PTT :: pin where "PTT = P4"
definition dtmfPin :: pin where "dtmfPin = P5"

definition LOW :: u8 where "LOW = 0"
definition HIGH :: u8 where "HIGH = 1"

text \<open>The C operator \<open>!\<close> on a level.\<close>

definition lnot :: "u8 \<Rightarrow> u8" where
  "lnot x = (if x = 0 then 1 else 0)"

definition relayPin :: "pin list" where "relayPin = [P2, P3]"
definition onState :: "u8 list" where "onState = [LOW, LOW]"
definition numRelays :: nat where "numRelays = length relayPin"

definition toneFreq :: nat where "toneFreq = 800"
definition cspeed :: nat where "cspeed = 2"

definition CMD_PERIOD :: u32 where "CMD_PERIOD = 60000"
definition DTMF_PERIOD :: u32 where "DTMF_PERIOD = 100"
definition RELAY_PERIOD :: u32 where "RELAY_PERIOD = 300000"
definition ID_PERIOD :: u32 where "ID_PERIOD = 30000"

text \<open>A character literal as the byte the compiler stores.\<close>

definition ch :: "char \<Rightarrow> u8" where
  "ch c = of_char c"

definition toMsg :: "u8 list" where "toMsg = map ch ''CTO''"
definition onMsg :: "u8 list" where "onMsg = map ch ''DOWN''"
definition offMsg :: "u8 list" where "offMsg = map ch ''UP''"
definition perMsg :: "u8 list" where "perMsg = map ch ''OFF''"
definition idMsg :: "u8 list" where "idMsg = map ch ''N4BRF/RC''"
definition vccMsg :: "u8 list" where "vccMsg = map ch ''VCC ''"

text \<open>
  What the program does to the outside world is recorded as a list of hardware
  operations, oldest first.
\<close>

datatype event =
    PinMode pin
  | DigitalWrite pin u8
  | Tone pin nat
  | NoTone pin
  | Delay nat
  | AnalogReference
  | DTMFBegin
  | SleepIdle

text \<open>
  The globals of the sketch, together with the millisecond counter that \<open>millis()\<close>
  reads and the record of hardware operations. The command buffer, its pointer, the
  command state and the selected relay and function are written at startup only and
  read nowhere; they are left out.
\<close>

record state =
  millis :: u32
  trace :: "event list"
  nextRelay :: "u32 list"
  relayState :: "u8 list"
  stayOn :: "bool list"
  dtmfKey :: u8
  waitForSpace :: bool
  nextDTMF :: u32
  nextID :: u32
  idNeeded :: bool
  nextCmdTimeout :: u32
  cmdActive :: bool

text \<open>
  The contents of cwtable.h, taken as a parameter: \<open>chtable\<close> holds the characters of
  the NUL-terminated character table (fewer than 256, as the table is indexed by an
  unsigned char), \<open>cwtable\<close> the byte at each offset of the element table, and
  \<open>DIT\<close>, \<open>DAH\<close>, \<open>WB\<close> the three element codes.
\<close>

record cw =
  chtable :: "u8 list"
  cwtable :: "nat \<Rightarrow> u8"
  DIT :: int
  DAH :: int
  WB :: int

text \<open>What each tick receives from outside: the symbol the tone decoder reports
  (0 for none), the reading of the analog converter, and the milliseconds the
  processor sleeps at the end of the tick.\<close>

record input =
  sample :: u8
  adc :: nat
  idle :: u32

datatype error = DivisionByZero

section \<open>Hardware operations and time\<close>

fun duration :: "event list \<Rightarrow> nat" where
  "duration [] = 0"
| "duration (Delay n # es) = n + duration es"
| "duration (e # es) = duration es"

text \<open>Performing hardware operations appends them to the record; \<open>delay\<close> lets the
  millisecond counter advance by its argument. The counter moves in \<open>delay\<close> and while
  the processor sleeps; the time the other statements take is not counted.\<close>

definition perform :: "event list \<Rightarrow> state \<Rightarrow> state" where
  "perform evs s = s\<lparr>millis := millis s + of_nat (duration evs), trace := trace s @ evs\<rparr>"

section \<open>The Morse transmitter\<close>

definition dah :: "event list" where
  "dah = [Tone tonePin toneFreq, DigitalWrite LED_BUILTIN HIGH, Delay (385 div cspeed),
          NoTone tonePin, DigitalWrite LED_BUILTIN LOW, Delay (90 div cspeed)]"

definition dit :: "event list" where
  "dit = [Tone tonePin toneFreq, DigitalWrite LED_BUILTIN HIGH, Delay (125 div cspeed),
          NoTone tonePin, DigitalWrite LED_BUILTIN LOW, Delay (100 div cspeed)]"

definition wordBreak :: "event list" where
  "wordBreak = [NoTone tonePin, Delay (850 div cspeed)]"

definition CharBreak :: "event list" where
  "CharBreak = [NoTone tonePin, Delay (165 div cspeed)]"

text \<open>The loop of \<open>sendElements\<close>, with the number of rounds left.\<close>

fun sendElements_loop :: "cw \<Rightarrow> nat \<Rightarrow> u8 \<Rightarrow> event list" where
  "sendElements_loop t 0 bits = []"
| "sendElements_loop t (Suc n) bits =
     (let j = drop_bit 6 (bits AND 0xC0);
          bits' = push_bit 2 bits;
          out = (if uint j = DIT t then dit
                 else if uint j = DAH t then dah
                 else if uint j = WB t then wordBreak
                 else [])
      in if bits' = 0 then out else out @ sendElements_loop t n bits')"

definition sendElements :: "cw \<Rightarrow> u8 \<Rightarrow> event list" where
  "sendElements t ele = sendElements_loop t 4 ele"

text \<open>The table scan of \<open>sendChar\<close>: the offset \<open>k\<close> where it stops and the table byte
  \<open>m\<close> read there, 0 when the terminator was reached. The signed char \<open>c\<close> and the
  unsigned char \<open>m\<close> are compared as ints. The offset is a natural number here; it is the
  unsigned char of the source for a table of fewer than 256 characters. Doubling it wraps
  at 8 bits, as \<open>k <<= 1\<close> does.\<close>

fun find_ch :: "u8 list \<Rightarrow> u8 \<Rightarrow> nat \<Rightarrow> nat \<times> u8" where
  "find_ch [] c k = (k, 0)"
| "find_ch (m # ms) c k =
     (if m = 0 then (k, 0)
      else if sint c = uint m then (k, m)
      else find_ch ms c (Suc k))"

definition sendChar :: "cw \<Rightarrow> u8 \<Rightarrow> event list" where
  "sendChar t c =
     (case find_ch (chtable t) c 0 of (k, m) \<Rightarrow>
        (if m = ch CHR ''-'' then CharBreak
         else if m \<noteq> 0 then
           (let k2 = (2 * k) mod 256
            in sendElements t (cwtable t k2) @ sendElements t (cwtable t (k2 + 1)))
         else [])
        @ (if c \<noteq> ch CHR '' '' \<and> c \<noteq> ch CHR ''-'' then CharBreak else []))"

definition pttDown :: "state \<Rightarrow> state" where
  "pttDown s =
     (let s1 = perform [DigitalWrite PTT HIGH, Delay 400] s
      in s1\<lparr>idNeeded := True, nextID := millis s1 + ID_PERIOD\<rparr>)"

definition pttUp :: "state \<Rightarrow> state" where
  "pttUp s = perform [DigitalWrite PTT LOW] s"

text \<open>The loop of \<open>SendMorse\<close> over the bytes of the message, up to its NUL (the
  messages of the sketch are far shorter than the 256 bytes its 8-bit index can count).\<close>

fun SendMorse_loop :: "cw \<Rightarrow> u8 list \<Rightarrow> event list" where
  "SendMorse_loop t [] = []"
| "SendMorse_loop t (j # js) =
     (if j = 0 then []
      else sendChar t (if sint j > sint (ch CHR ''Z'') then j - ch CHR '' '' else j)
           @ SendMorse_loop t js)"

definition SendMorse :: "cw \<Rightarrow> u8 list \<Rightarrow> u8 \<Rightarrow> state \<Rightarrow> state" where
  "SendMorse t message prefix s =
     (let s1 = pttDown s;
          s2 = (if prefix \<noteq> 0
                then perform (sendChar t prefix @ sendChar t (ch CHR '' '')) s1
                else s1);
          s3 = perform (SendMorse_loop t message) s2
      in pttUp s3)"

section \<open>Relays\<close>

definition relayOff :: "cw \<Rightarrow> nat \<Rightarrow> state \<Rightarrow> state" where
  "relayOff t r s =
     (let s1 = perform [DigitalWrite (relayPin ! r) (lnot (onState ! r))] s;
          s2 = SendMorse t offMsg (of_nat r + ch CHR ''1'') s1
      in s2\<lparr>relayState := (relayState s2)[r := lnot (onState ! r)]\<rparr>)"

definition relayOn :: "cw \<Rightarrow> nat \<Rightarrow> bool \<Rightarrow> state \<Rightarrow> state" where
  "relayOn t r p s =
     (let s1 = perform [DigitalWrite (relayPin ! r) (onState ! r)] s;
          s2 = (if p then SendMorse t perMsg (of_nat r + ch CHR ''1'') s1
                else SendMorse t onMsg (of_nat r + ch CHR ''1'') s1)
      in s2\<lparr>relayState := (relayState s2)[r := onState ! r]\<rparr>)"

section \<open>Supply voltage report\<close>

text \<open>\<open>readVcc\<close> reads the converter twice and divides by the second reading, which is
  the argument \<open>a\<close>; a reading of 0 makes the division undefined.\<close>

definition readVcc :: "nat \<Rightarrow> state \<Rightarrow> error + (u16 \<times> state)" where
  "readVcc a s =
     (let s1 = perform [AnalogReference, Delay 100] s
      in if a = 0 then Inl DivisionByZero else Inr (of_nat (11830 div a), s1))"

definition sendVcc :: "cw \<Rightarrow> nat \<Rightarrow> state \<Rightarrow> error + state" where
  "sendVcc t a s =
     (case readVcc a s of
        Inl e \<Rightarrow> Inl e
      | Inr (vcc, s1) \<Rightarrow>
          (let s2 = SendMorse t vccMsg 0 s1;
               s3 = pttDown s2;
               s4 = perform (sendChar t (ucast (vcc div 10) + ch CHR ''0'')) s3;
               s5 = perform (sendChar t (ucast (vcc mod 10) + ch CHR ''0'')) s4
           in Inr (pttUp s5)))"

section \<open>Key detection and command processing\<close>

text \<open>\<open>checkDTMF\<close>, given the symbol the decoder reports at this poll.\<close>

definition checkDTMF :: "u8 \<Rightarrow> state \<Rightarrow> bool \<times> state" where
  "checkDTMF key s =
     (if waitForSpace s then
        (if key = 0 then (dtmfKey s \<noteq> 0, s\<lparr>waitForSpace := False\<rparr>) else (False, s))
      else
        (if key \<noteq> 0 then (False, s\<lparr>dtmfKey := key, waitForSpace := True\<rparr>)
         else (False, s)))"

definition processKey_switch :: "cw \<Rightarrow> nat \<Rightarrow> state \<Rightarrow> error + state" where
  "processKey_switch t a s =
     (if dtmfKey s = ch CHR ''1'' then Inr (relayOff t 0 s)
      else if dtmfKey s = ch CHR ''2'' then
        (let s1 = relayOn t 0 False s;
             s2 = s1\<lparr>stayOn := (stayOn s1)[0 := False]\<rparr>
         in Inr (s2\<lparr>nextRelay := (nextRelay s2)[0 := millis s2 + RELAY_PERIOD]\<rparr>))
      else if dtmfKey s = ch CHR ''3'' then
        (let s1 = relayOn t 0 True s
         in Inr (s1\<lparr>stayOn := (stayOn s1)[0 := True]\<rparr>))
      else if dtmfKey s = ch CHR ''4'' then Inr (relayOff t 1 s)
      else if dtmfKey s = ch CHR ''5'' then
        (let s1 = relayOn t 1 False s;
             s2 = s1\<lparr>stayOn := (stayOn s1)[1 := False]\<rparr>
         in Inr (s2\<lparr>nextRelay := (nextRelay s2)[1 := millis s2 + RELAY_PERIOD]\<rparr>))
      else if dtmfKey s = ch CHR ''6'' then
        (let s1 = relayOn t 1 True s
         in Inr (s1\<lparr>stayOn := (stayOn s1)[1 := True]\<rparr>))
      else if dtmfKey s = ch CHR ''B'' then sendVcc t a s
      else
        (let s1 = pttDown s;
             s2 = perform (sendChar t (dtmfKey s1)) s1;
             s3 = perform (sendChar t (ch CHR ''?'')) s2
         in Inr (pttUp s3)))"

definition processKey :: "cw \<Rightarrow> nat \<Rightarrow> state \<Rightarrow> error + state" where
  "processKey t a s =
     (case (if dtmfKey s \<noteq> 0 then processKey_switch t a (perform [Delay 500] s)
            else Inr s) of
        Inl e \<Rightarrow> Inl e
      | Inr s' \<Rightarrow> Inr (s'\<lparr>dtmfKey := 0\<rparr>))"

section \<open>Startup and the main loop\<close>

text \<open>The globals as the C startup code leaves them.\<close>

definition power_on :: state where
  "power_on = \<lparr>millis = 0, trace = [], nextRelay = replicate numRelays 0,
     relayState = replicate numRelays 0, stayOn = replicate numRelays False,
     dtmfKey = 0, waitForSpace = False, nextDTMF = 0, nextID = 0, idNeeded = False,
     nextCmdTimeout = 0, cmdActive = False\<rparr>"

fun setup_relays :: "nat list \<Rightarrow> state \<Rightarrow> state" where
  "setup_relays [] s = s"
| "setup_relays (i # is) s =
     (let s1 = perform [PinMode (relayPin ! i),
                        DigitalWrite (relayPin ! i) (lnot (onState ! i))] s
      in setup_relays is
           (s1\<lparr>relayState := (relayState s1)[i := lnot (onState ! i)],
               nextRelay := (nextRelay s1)[i := 0],
               stayOn := (stayOn s1)[i := False]\<rparr>))"

definition setup_fn :: "state \<Rightarrow> state" where
  "setup_fn s =
     (let s1 = perform [PinMode tonePin, PinMode PTT, PinMode LED_BUILTIN,
                        DigitalWrite tonePin LOW, DigitalWrite PTT LOW,
                        DigitalWrite LED_BUILTIN LOW] s;
          s2 = setup_relays [0..<numRelays] s1;
          s3 = perform [DTMFBegin] s2
      in s3\<lparr>nextID := millis s3, idNeeded := True\<rparr>)"

text \<open>The four checks of \<open>loop\<close>, in the order of the source; \<open>timeNow\<close> is the value
  \<open>millis()\<close> returned at the start of the tick.\<close>

definition loop_dtmf :: "cw \<Rightarrow> input \<Rightarrow> u32 \<Rightarrow> state \<Rightarrow> error + state" where
  "loop_dtmf t inp timeNow s =
     (if sint (nextDTMF s - timeNow) < 0 then
        (case (case checkDTMF (sample inp) s of
                 (True, s1) \<Rightarrow> processKey t (adc inp) s1
               | (False, s1) \<Rightarrow> Inr s1) of
           Inl e \<Rightarrow> Inl e
         | Inr s2 \<Rightarrow> Inr (s2\<lparr>nextDTMF := timeNow + DTMF_PERIOD\<rparr>))
      else Inr s)"

definition loop_cmd :: "cw \<Rightarrow> u32 \<Rightarrow> state \<Rightarrow> state" where
  "loop_cmd t timeNow s =
     (if cmdActive s then
        (if sint (nextCmdTimeout s - timeNow) < 0
         then (SendMorse t toMsg 0 s)\<lparr>cmdActive := False\<rparr>
         else s)
      else s)"

definition loop_id :: "cw \<Rightarrow> u32 \<Rightarrow> state \<Rightarrow> state" where
  "loop_id t timeNow s =
     (if sint (nextID s - timeNow) < 0 then
        (let s1 = (if idNeeded s then (SendMorse t idMsg 0 s)\<lparr>idNeeded := False\<rparr> else s)
         in s1\<lparr>nextID := timeNow + ID_PERIOD\<rparr>)
      else s)"

text \<open>The body of the relay loop for relay \<open>i\<close>, and the loop.\<close>

definition relay_check :: "cw \<Rightarrow> u32 \<Rightarrow> nat \<Rightarrow> state \<Rightarrow> state" where
  "relay_check t timeNow i s =
     (if relayState s ! i = onState ! i \<and> \<not> stayOn s ! i then
        (if sint (nextRelay s ! i - timeNow) < 0 then relayOff t i s else s)
      else s)"

fun loop_relays :: "cw \<Rightarrow> u32 \<Rightarrow> nat list \<Rightarrow> state \<Rightarrow> state" where
  "loop_relays t timeNow [] s = s"
| "loop_relays t timeNow (i # is) s = loop_relays t timeNow is (relay_check t timeNow i s)"

text \<open>Sleeping until the next interrupt: the counter moves on by the idle time.\<close>

definition sleep_mode :: "u32 \<Rightarrow> state \<Rightarrow> state" where
  "sleep_mode d s = (perform [SleepIdle] s)\<lparr>millis := millis s + d\<rparr>"

definition loop :: "cw \<Rightarrow> input \<Rightarrow> state \<Rightarrow> error + state" where
  "loop t inp s =
     (let timeNow = millis s
      in case loop_dtmf t inp timeNow s of
           Inl e \<Rightarrow> Inl e
         | Inr s1 \<Rightarrow>
             Inr (sleep_mode (idle inp)
                    (loop_relays t timeNow [0..<numRelays]
                       (loop_id t timeNow (loop_cmd t timeNow s1)))))"

text \<open>A sequence of ticks, and the condition under which a tick hands a key to
  \<open>processKey\<close>.\<close>

fun run :: "cw \<Rightarrow> input list \<Rightarrow> state \<Rightarrow> error + state" where
  "run t [] s = Inr s"
| "run t (i # is) s = (case loop t i s of Inl e \<Rightarrow> Inl e | Inr s' \<Rightarrow> run t is s')"

definition key_accepted :: "input \<Rightarrow> state \<Rightarrow> bool" where
  "key_accepted inp s =
     (sint (nextDTMF s - millis s) < 0 \<and> fst (checkDTMF (sample inp) s))"

fun quiet :: "cw \<Rightarrow> input list \<Rightarrow> state \<Rightarrow> bool" where
  "quiet t [] s = True"
| "quiet t (i # is) s =
     (\<not> key_accepted i s \<and>
      (case loop t i s of Inl e \<Rightarrow> False | Inr s' \<Rightarrow> quiet t is s'))"

section \<open>Notions used in the statements\<close>

text \<open>What \<open>SendMorse\<close> puts on the transmitter for a message and a prefix.\<close>

definition keying :: "cw \<Rightarrow> u8 list \<Rightarrow> u8 \<Rightarrow> event list" where
  "keying t message prefix =
     [DigitalWrite PTT HIGH, Delay 400]
     @ (if prefix \<noteq> 0 then sendChar t prefix @ sendChar t (ch CHR '' '') else [])
     @ SendMorse_loop t message @ [DigitalWrite PTT LOW]"

text \<open>Successive polls of \<open>checkDTMF\<close>, one per decoder sample.\<close>

fun checkDTMF_seq :: "u8 list \<Rightarrow> state \<Rightarrow> bool list \<times> state" where
  "checkDTMF_seq [] s = ([], s)"
| "checkDTMF_seq (k # ks) s =
     (case checkDTMF k s of (r, s1) \<Rightarrow>
        (case checkDTMF_seq ks s1 of (rs, s2) \<Rightarrow> (r # rs, s2)))"

text \<open>The keys that the switch of \<open>processKey\<close> maps to "on for the relay period" and
  to "on until turned off", per relay.\<close>

definition timedKey :: "nat \<Rightarrow> u8" where
  "timedKey r = [ch CHR ''2'', ch CHR ''5''] ! r"

definition holdKey :: "nat \<Rightarrow> u8" where
  "holdKey r = [ch CHR ''3'', ch CHR ''6''] ! r"

text \<open>The three arrays have one entry per relay.\<close>

definition arrays_ok :: "state \<Rightarrow> bool" where
  "arrays_ok s \<longleftrightarrow>
     length (nextRelay s) = numRelays \<and> length (relayState s) = numRelays \<and>
     length (stayOn s) = numRelays"

text \<open>Relay \<open>r\<close> looks the same in \<open>s'\<close> as in \<open>s\<close>, and the record of operations has
  only grown, by operations that do not drive the pin of relay \<open>r\<close>.\<close>

definition keeps :: "nat \<Rightarrow> state \<Rightarrow> state \<Rightarrow> bool" where
  "keeps r s s' \<longleftrightarrow>
     relayState s' ! r = relayState s ! r \<and> stayOn s' ! r = stayOn s ! r \<and>
     nextRelay s' ! r = nextRelay s ! r \<and>
     length (relayState s') = length (relayState s) \<and>
     (\<exists>evs. trace s' = trace s @ evs \<and> (\<forall>v. DigitalWrite (relayPin ! r) v \<notin> set evs))"

text \<open>Relay \<open>r\<close> reads off, and the write of the off level to its pin is among the
  operations recorded after the first \<open>n\<close>.\<close>

definition switched_off :: "nat \<Rightarrow> nat \<Rightarrow> state \<Rightarrow> bool" where
  "switched_off r n s \<longleftrightarrow>
     r < length (relayState s) \<and> n \<le> length (trace s) \<and>
     relayState s ! r = lnot (onState ! r) \<and>
     DigitalWrite (relayPin ! r) (lnot (onState ! r)) \<in> set (drop n (trace s))"

text \<open>Relay \<open>r\<close> is on in timed mode with deadline \<open>d\<close>, or it has been switched off.\<close>

definition armed_or_off :: "nat \<Rightarrow> u32 \<Rightarrow> nat \<Rightarrow> state \<Rightarrow> bool" where
  "armed_or_off r d n s \<longleftrightarrow>
     r < length (relayState s) \<and> n \<le> length (trace s) \<and>
     ((relayState s ! r = onState ! r \<and> \<not> stayOn s ! r \<and> nextRelay s ! r = d) \<or>
      switched_off r n s)"

text \<open>Relay \<open>r\<close> is on and held, and no operation recorded after the first \<open>n\<close> drives
  its pin.\<close>

definition held :: "nat \<Rightarrow> nat \<Rightarrow> state \<Rightarrow> bool" where
  "held r n s \<longleftrightarrow>
     relayState s ! r = onState ! r \<and> stayOn s ! r \<and> n \<le> length (trace s) \<and>
     (\<forall>v. DigitalWrite (relayPin ! r) v \<notin> set (drop n (trace s)))"

text \<open>No operation in the list drives a relay pin.\<close>

definition relay_free :: "event list \<Rightarrow> bool" where
  "relay_free evs \<longleftrightarrow> (\<forall>p v. DigitalWrite p v \<in> set evs \<longrightarrow> p \<notin> set relayPin)"

text \<open>The character \<open>c\<close> occurs in the character table, as the scan of \<open>sendChar\<close>
  compares it; and the two units of elements that \<open>sendChar\<close> sends for the table offset
  where the scan stops.\<close>

definition in_table :: "cw \<Rightarrow> u8 \<Rightarrow> bool" where
  "in_table t c \<longleftrightarrow> (\<exists>m \<in> set (takeWhile (\<lambda>m. m \<noteq> 0) (chtable t)). sint c = uint m)"

definition elements_of :: "cw \<Rightarrow> u8 \<Rightarrow> event list" where
  "elements_of t c =
     (let k2 = (2 * fst (find_ch (chtable t) c 0)) mod 256
      in sendElements t (cwtable t k2) @ sendElements t (cwtable t (k2 + 1)))"

text \<open>A small table in the format of cwtable.h, for running the definitions: E, T, 1, 2,
  the question mark, the gap marker and the space, two bits per element from the top.\<close>

definition example_cw :: cw where
  "example_cw = \<lparr>chtable = map ch ''ET12?- '',
     cwtable = (\<lambda>k. if k < 14
                     then [0x40, 0, 0x80, 0, 0x6A, 0x80, 0x5A, 0x80, 0x5A, 0x50, 0, 0, 0xC0, 0] ! k
                     else 0),
     DIT = 1, DAH = 2, WB = 3\<rparr>"

text \<open>The state in which the first tick starts.\<close>

definition started :: state where
  "started = setup_fn power_on"

section \<open>Arithmetic of the deadline test\<close>

lemma sint_neg_iff: "sint (x :: u32) < 0 \<longleftrightarrow> 2 ^ 31 \<le> uint x"
proof (cases "uint x < 2 ^ 31")
  case True
  moreover have "- (2 ^ 31) \<le> uint x"
  proof -
    have "- (2 ^ 31 :: int) \<le> 0" by simp
    also have "0 \<le> uint x" by simp
    finally show ?thesis .
  qed
  ultimately have "sint x = uint x"
    using signed_take_bit_int_eq_self [of 31 "uint x"] by (simp add: sint_uint)
  with True show ?thesis by simp
next
  case False
  then have "sint x \<le> uint x - 2 ^ 32"
    using signed_take_bit_int_less_eq [of 31 "uint x"] by (simp add: sint_uint)
  moreover have "uint x < 2 ^ 32"
    using uint_bounded [of x] by simp
  ultimately show ?thesis using False by simp
qed

lemma uint_neg: "uint (- x :: u32) = (if x = 0 then 0 else 2 ^ 32 - uint x)"
proof (cases "x = 0")
  case True
  then show ?thesis by simp
next
  case False
  then have "uint x \<noteq> 0" by (simp add: uint_0_iff)
  then have "0 < uint x" using uint_ge_0 [of x] by linarith
  moreover have "uint x < 2 ^ 32" using uint_bounded [of x] by simp
  ultimately have "(- uint x) mod 2 ^ 32 = 2 ^ 32 - uint x"
    by (simp add: zmod_zminus1_eq_if)
  with False show ?thesis by (simp add: uint_word_ariths)
qed

lemma due_window:
  "sint (d - n :: u32) < 0 \<longleftrightarrow> 0 < uint (n - d) \<and> uint (n - d) \<le> 2 ^ 31"
proof -
  have e: "n - d = - (d - n)" by simp
  have b: "uint (d - n) < 2 ^ 32" using uint_bounded [of "d - n"] by simp
  show ?thesis
    unfolding e sint_neg_iff uint_neg using b
    using uint_ge_0 [of "d - n"] by (auto simp: uint_0_iff)
qed

lemma unat_neg_iff:
  "sint (d - n :: u32) < 0 \<longleftrightarrow> 0 < unat (n - d) \<and> unat (n - d) \<le> 2 ^ 31"
proof -
  have "int (unat (n - d)) \<le> int (2 ^ 31) \<longleftrightarrow> unat (n - d) \<le> 2 ^ 31"
    by (rule of_nat_le_iff)
  then have "uint (n - d) \<le> 2 ^ 31 \<longleftrightarrow> unat (n - d) \<le> 2 ^ 31"
    by simp
  moreover have "0 < uint (n - d) \<longleftrightarrow> 0 < unat (n - d)"
    unfolding uint_nat by (rule of_nat_0_less_iff)
  ultimately show ?thesis unfolding due_window by simp
qed

lemma elapsed_due:
  assumes "unat RELAY_PERIOD < unat (now - arm)"
    and "unat (now - arm) \<le> unat RELAY_PERIOD + 2 ^ 31"
  shows "sint (arm + RELAY_PERIOD - now) < 0"
proof -
  have le: "RELAY_PERIOD \<le> now - arm"
    using assms(1) by (simp add: word_le_nat_alt)
  have eq: "now - (arm + RELAY_PERIOD) = (now - arm) - RELAY_PERIOD" by simp
  have "unat ((now - arm) - RELAY_PERIOD) = unat (now - arm) - unat RELAY_PERIOD"
    using le by (rule unat_sub)
  with assms show ?thesis unfolding unat_neg_iff eq by simp
qed

lemma sint_period_pos:
  "\<not> sint DTMF_PERIOD < 0" "\<not> sint ID_PERIOD < 0" "\<not> sint RELAY_PERIOD < 0"
  by (simp_all add: DTMF_PERIOD_def ID_PERIOD_def RELAY_PERIOD_def)

section \<open>What a transmission changes\<close>

lemma duration_append: "duration (xs @ ys) = duration xs + duration ys"
  by (induction xs rule: duration.induct) simp_all

lemma SendMorse_eq:
  "SendMorse t m p s =
     s\<lparr>millis := millis s + of_nat (duration (keying t m p)),
       trace := trace s @ keying t m p,
       nextID := millis s + 400 + ID_PERIOD,
       idNeeded := True\<rparr>"
  by (simp add: SendMorse_def pttDown_def pttUp_def perform_def keying_def Let_def
      duration_append)

lemma relayOff_eq:
  "relayOff t r s =
     s\<lparr>millis := millis s + of_nat (duration (keying t offMsg (of_nat r + ch CHR ''1''))),
       trace := trace s @ DigitalWrite (relayPin ! r) (lnot (onState ! r))
                 # keying t offMsg (of_nat r + ch CHR ''1''),
       nextID := millis s + 400 + ID_PERIOD,
       idNeeded := True,
       relayState := (relayState s)[r := lnot (onState ! r)]\<rparr>"
  by (simp add: relayOff_def SendMorse_eq perform_def Let_def)

lemma relayOn_eq:
  "relayOn t r p s =
     s\<lparr>millis := millis s
         + of_nat (duration (keying t (if p then perMsg else onMsg) (of_nat r + ch CHR ''1''))),
       trace := trace s @ DigitalWrite (relayPin ! r) (onState ! r)
                 # keying t (if p then perMsg else onMsg) (of_nat r + ch CHR ''1''),
       nextID := millis s + 400 + ID_PERIOD,
       idNeeded := True,
       relayState := (relayState s)[r := onState ! r]\<rparr>"
  by (simp add: relayOn_def SendMorse_eq perform_def Let_def)

lemma lnot_neq: "lnot x \<noteq> x" "x \<noteq> lnot x"
  by (simp_all add: lnot_def)

lemma numRelays_2: "numRelays = 2"
  by (simp add: numRelays_def relayPin_def)

lemma less_numRelays: "r < numRelays \<longleftrightarrow> r = 0 \<or> r = 1"
  by (auto simp: numRelays_2)

lemma upt_numRelays: "[0..<numRelays] = [0, 1]"
  by (simp add: numRelays_2 upt_rec)

section \<open>Running the definitions\<close>

lemma started_eq:
  "started = \<lparr>millis = 0,
     trace = [PinMode P0, PinMode P4, PinMode LED_BUILTIN, DigitalWrite P0 0,
              DigitalWrite P4 0, DigitalWrite LED_BUILTIN 0, PinMode P2, DigitalWrite P2 1,
              PinMode P3, DigitalWrite P3 1, DTMFBegin],
     nextRelay = [0, 0], relayState = [1, 1], stayOn = [False, False], dtmfKey = 0,
     waitForSpace = False, nextDTMF = 0, nextID = 0, idNeeded = True, nextCmdTimeout = 0,
     cmdActive = False\<rparr>"
  by (simp add: started_def setup_fn_def power_on_def perform_def upt_numRelays relayPin_def
      onState_def lnot_def LOW_def HIGH_def tonePin_def PTT_def Let_def numRelays_def)

lemma sendElements_unfold:
  "sendElements t ele = sendElements_loop t (Suc (Suc (Suc (Suc 0)))) ele"
  by (simp add: sendElements_def numeral_eq_Suc)

lemmas morse_defs = sendChar_def sendElements_unfold dit_def dah_def wordBreak_def
  CharBreak_def example_cw_def ch_def tonePin_def toneFreq_def cspeed_def HIGH_def LOW_def
  Let_def

lemmas tick_defs = loop_def loop_dtmf_def checkDTMF_def loop_cmd_def loop_id_def
  upt_numRelays relay_check_def sleep_mode_def perform_def key_accepted_def onState_def
  LOW_def DTMF_PERIOD_def ID_PERIOD_def RELAY_PERIOD_def Let_def

lemmas key_defs = processKey_def processKey_switch_def relayOn_eq keying_def perform_def
  morse_defs onMsg_def perMsg_def relayPin_def onState_def ID_PERIOD_def RELAY_PERIOD_def
  PTT_def started_eq

lemmas accept_defs = loop_def loop_dtmf_def checkDTMF_def loop_cmd_def loop_id_def
  upt_numRelays relay_check_def sleep_mode_def key_accepted_def DTMF_PERIOD_def Let_def

section \<open>The deadline test of the scheduler\<close>

lemma loop_dtmf_acts:
  "loop_dtmf t inp now s \<noteq> Inr s \<longleftrightarrow> sint (nextDTMF s - now) < 0"
proof (cases "sint (nextDTMF s - now) < 0")
  case False
  then show ?thesis by (simp add: loop_dtmf_def)
next
  case True
  have ne: "nextDTMF s \<noteq> now + DTMF_PERIOD"
  proof
    assume "nextDTMF s = now + DTMF_PERIOD"
    with True show False by (simp add: sint_period_pos)
  qed
  have "loop_dtmf t inp now s = Inr s' \<Longrightarrow> nextDTMF s' = now + DTMF_PERIOD" for s'
    using True by (auto simp: loop_dtmf_def split: sum.splits prod.splits bool.splits)
  with ne True show ?thesis by auto
qed

lemma loop_cmd_acts:
  "cmdActive s \<Longrightarrow>
   loop_cmd t now s \<noteq> s \<longleftrightarrow> sint (nextCmdTimeout s - now) < 0"
proof (cases "sint (nextCmdTimeout s - now) < 0")
  case False
  then show ?thesis by (simp add: loop_cmd_def)
next
  case True
  assume act: "cmdActive s"
  have "\<not> cmdActive (loop_cmd t now s)"
    using True act by (simp add: loop_cmd_def)
  with True act show ?thesis by auto
qed

lemma loop_id_acts:
  "loop_id t now s \<noteq> s \<longleftrightarrow> sint (nextID s - now) < 0"
proof (cases "sint (nextID s - now) < 0")
  case False
  then show ?thesis by (simp add: loop_id_def)
next
  case True
  have ne: "nextID s \<noteq> now + ID_PERIOD"
  proof
    assume "nextID s = now + ID_PERIOD"
    with True show False by (simp add: sint_period_pos)
  qed
  have "nextID (loop_id t now s) = now + ID_PERIOD"
    using True by (simp add: loop_id_def Let_def)
  with ne True show ?thesis by auto
qed

lemma relay_check_acts:
  "relayState s ! i = onState ! i \<Longrightarrow> \<not> stayOn s ! i \<Longrightarrow>
   relay_check t now i s \<noteq> s \<longleftrightarrow> sint (nextRelay s ! i - now) < 0"
proof (cases "sint (nextRelay s ! i - now) < 0")
  case False
  then show ?thesis by (simp add: relay_check_def)
next
  case True
  assume on: "relayState s ! i = onState ! i" "\<not> stayOn s ! i"
  have "trace (relay_check t now i s) \<noteq> trace s"
    using True on by (simp add: relay_check_def relayOff_eq)
  with True show ?thesis by auto
qed

text \<open>
  C1. Each of the four checks of the scheduler (decoder poll, command timeout, station
  identification, auto-off of a relay that is on in timed mode) acts exactly when the
  32-bit difference deadline - now, read as a signed number, is negative. That is the
  case exactly when now lies between 1 and 2^31 milliseconds past the deadline modulo
  2^32, so it is not the unsigned comparison of deadline and now: with the deadline just
  after a wrap of the counter and now just before it the check does not act although
  deadline < now, and with now just after the wrap and the deadline just before it the
  check acts although deadline > now.
\<close>

theorem loop_due_test:
  "(loop_dtmf t inp now s \<noteq> Inr s \<longleftrightarrow> sint (nextDTMF s - now) < 0) \<and>
   (cmdActive s \<longrightarrow>
      (loop_cmd t now s \<noteq> s \<longleftrightarrow> sint (nextCmdTimeout s - now) < 0)) \<and>
   (loop_id t now s \<noteq> s \<longleftrightarrow> sint (nextID s - now) < 0) \<and>
   (relayState s ! i = onState ! i \<and> \<not> stayOn s ! i \<longrightarrow>
      (relay_check t now i s \<noteq> s \<longleftrightarrow> sint (nextRelay s ! i - now) < 0)) \<and>
   (sint (deadline - now) < 0 \<longleftrightarrow>
      0 < unat (now - deadline) \<and> unat (now - deadline) \<le> 2 ^ 31) \<and>
   ((5 :: u32) < 0xFFFFFFFF \<and>
      loop_id t 0xFFFFFFFF (s\<lparr>nextID := 5\<rparr>) = s\<lparr>nextID := 5\<rparr>) \<and>
   (\<not> (0xFFFFFFF0 :: u32) < 5 \<and>
      loop_id t 5 (s\<lparr>nextID := 0xFFFFFFF0\<rparr>) \<noteq> s\<lparr>nextID := 0xFFFFFFF0\<rparr>)"
proof -
  have a: "loop_id t 0xFFFFFFFF (s\<lparr>nextID := 5\<rparr>) = s\<lparr>nextID := 5\<rparr>"
    using loop_id_acts [of t "0xFFFFFFFF" "s\<lparr>nextID := 5\<rparr>"] by simp
  have b: "loop_id t 5 (s\<lparr>nextID := 0xFFFFFFF0\<rparr>) \<noteq> s\<lparr>nextID := 0xFFFFFFF0\<rparr>"
    using loop_id_acts [of t 5 "s\<lparr>nextID := 0xFFFFFFF0\<rparr>"] by simp
  show ?thesis
    using a b loop_dtmf_acts [of t inp now s] loop_cmd_acts [of s t now]
      loop_id_acts [of t now s] relay_check_acts [of s i t now]
      unat_neg_iff [of deadline now]
    by simp
qed

theorem loop_due_test_witness:
  "cmdActive (started\<lparr>cmdActive := True, relayState := [0, 1]\<rparr>) \<and>
   relayState (started\<lparr>cmdActive := True, relayState := [0, 1]\<rparr>) ! 0 = onState ! 0 \<and>
   \<not> stayOn (started\<lparr>cmdActive := True, relayState := [0, 1]\<rparr>) ! 0 \<and>
   loop_cmd example_cw 7 (started\<lparr>cmdActive := True, relayState := [0, 1]\<rparr>)
     \<noteq> started\<lparr>cmdActive := True, relayState := [0, 1]\<rparr> \<and>
   relay_check example_cw 7 0 (started\<lparr>cmdActive := True, relayState := [0, 1]\<rparr>)
     \<noteq> started\<lparr>cmdActive := True, relayState := [0, 1]\<rparr>"
  using loop_due_test [of example_cw "\<lparr>sample = 0, adc = 0, idle = 1\<rparr>" 7
      "started\<lparr>cmdActive := True, relayState := [0, 1]\<rparr>" 0 0]
  by (simp add: started_eq onState_def LOW_def)

section \<open>Key detection\<close>

lemma checkDTMF_seq_held:
  "waitForSpace s \<Longrightarrow> \<forall>k\<in>set ks. k \<noteq> 0 \<Longrightarrow>
   checkDTMF_seq ks s = (replicate (length ks) False, s)"
  by (induction ks) (simp_all add: checkDTMF_def)

lemma checkDTMF_seq_silent:
  "\<not> waitForSpace s \<Longrightarrow> checkDTMF_seq (replicate n 0) s = (replicate n False, s)"
  by (induction n) (simp_all add: checkDTMF_def)

lemma checkDTMF_seq_append:
  "checkDTMF_seq (xs @ ys) s =
     (case checkDTMF_seq xs s of (rs, s1) \<Rightarrow>
        (case checkDTMF_seq ys s1 of (rs', s2) \<Rightarrow> (rs @ rs', s2)))"
  by (induction xs arbitrary: s) (simp_all split: prod.splits)

text \<open>
  C2. Starting with no key pending, let the decoder report a nonzero symbol \<open>k\<close>, then any
  number of further nonzero symbols \<open>ks\<close> (the tone is held), then silence, then \<open>n\<close> more
  polls of silence. \<open>checkDTMF\<close> returns true at exactly one poll, the first silent one,
  and false at every poll before and after it; the key it leaves in \<open>dtmfKey\<close> is \<open>k\<close>, the
  symbol of the first poll of the press.
\<close>

theorem checkDTMF_press_release:
  assumes "\<not> waitForSpace s" and "k \<noteq> 0" and "\<forall>x\<in>set ks. x \<noteq> 0"
  shows "checkDTMF_seq ((k # ks) @ 0 # replicate n 0) s =
           (replicate (length (k # ks)) False @ True # replicate n False,
            s\<lparr>dtmfKey := k, waitForSpace := False\<rparr>)"
proof -
  let ?s1 = "s\<lparr>dtmfKey := k, waitForSpace := True\<rparr>"
  let ?s2 = "s\<lparr>dtmfKey := k, waitForSpace := False\<rparr>"
  have press: "checkDTMF k s = (False, ?s1)"
    using assms(1,2) by (simp add: checkDTMF_def)
  have hold: "checkDTMF_seq ks ?s1 = (replicate (length ks) False, ?s1)"
    using assms(3) by (simp add: checkDTMF_seq_held)
  have release: "checkDTMF 0 ?s1 = (True, ?s2)"
    using assms(2) by (simp add: checkDTMF_def)
  have after: "checkDTMF_seq (replicate n 0) ?s2 = (replicate n False, ?s2)"
    by (simp add: checkDTMF_seq_silent)
  show ?thesis
    by (simp add: checkDTMF_seq_append press hold release after)
qed

theorem checkDTMF_press_release_witness:
  "checkDTMF_seq [0x35, 0x35, 0x35, 0, 0, 0] started =
     ([False, False, False, True, False, False],
      started\<lparr>dtmfKey := 0x35, waitForSpace := False\<rparr>)"
proof -
  have h1: "\<not> waitForSpace started" by (simp add: started_eq)
  have h2: "(0x35 :: u8) \<noteq> 0" by simp
  have h3: "\<forall>x\<in>set [0x35, 0x35 :: u8]. x \<noteq> 0" by simp
  show ?thesis
    using checkDTMF_press_release [OF h1 h2 h3, of "Suc (Suc 0)"] by simp
qed

section \<open>Relay outputs\<close>

lemma relay_free_append [simp]: "relay_free (xs @ ys) \<longleftrightarrow> relay_free xs \<and> relay_free ys"
  by (auto simp: relay_free_def)

lemma relay_free_Nil [simp]: "relay_free []"
  by (simp add: relay_free_def)

lemma relay_free_Cons [simp]:
  "relay_free (e # es) \<longleftrightarrow> (\<forall>p v. e = DigitalWrite p v \<longrightarrow> p \<notin> set relayPin) \<and> relay_free es"
  by (auto simp: relay_free_def)

lemma PTT_not_relay [simp]: "PTT \<notin> set relayPin"
  by (simp add: PTT_def relayPin_def)

lemma relay_free_elements [simp]:
  "relay_free dit" "relay_free dah" "relay_free wordBreak" "relay_free CharBreak"
  by (simp_all add: dit_def dah_def wordBreak_def CharBreak_def relayPin_def)

lemma relay_free_sendElements_loop: "relay_free (sendElements_loop t n bits)"
  by (induction n arbitrary: bits) (simp_all add: Let_def)

lemma relay_free_sendChar [simp]: "relay_free (sendChar t c)"
  by (simp add: sendChar_def sendElements_def relay_free_sendElements_loop Let_def
      split: prod.splits)

lemma relay_free_SendMorse_loop [simp]: "relay_free (SendMorse_loop t m)"
  by (induction m) simp_all

lemma relay_free_keying [simp]: "relay_free (keying t m p)"
  by (simp add: keying_def)

text \<open>
  C9. \<open>relayOff r\<close> writes \<open>relayState\<close> at index \<open>r\<close> and nowhere else, and leaves
  \<open>stayOn\<close> and \<open>nextRelay\<close> as they were, also at index \<open>r\<close>: a relay that is held
  keeps its hold flag when it is turned off. The operations it performs are the write of
  the off level to the pin of relay \<open>r\<close>, followed by operations none of which drives a
  relay pin (they are the acknowledgment transmission, which as every transmission also
  sets \<open>idNeeded\<close> and \<open>nextID\<close>).
\<close>

theorem relayOff_frame:
  "relayState (relayOff t r s) = (relayState s)[r := lnot (onState ! r)] \<and>
   stayOn (relayOff t r s) = stayOn s \<and>
   nextRelay (relayOff t r s) = nextRelay s \<and>
   (\<forall>i. i \<noteq> r \<longrightarrow> relayState (relayOff t r s) ! i = relayState s ! i) \<and>
   (stayOn s ! r \<longrightarrow> stayOn (relayOff t r s) ! r) \<and>
   (\<exists>evs. trace (relayOff t r s)
             = trace s @ DigitalWrite (relayPin ! r) (lnot (onState ! r)) # evs \<and>
          relay_free evs)"
  by (simp add: relayOff_eq)

theorem relayOff_frame_witness:
  "stayOn (started\<lparr>relayState := [0, 0], stayOn := [True, False]\<rparr>) ! 0 \<and>
   stayOn (relayOff example_cw 0 (started\<lparr>relayState := [0, 0], stayOn := [True, False]\<rparr>)) ! 0 \<and>
   relayState (relayOff example_cw 0 (started\<lparr>relayState := [0, 0], stayOn := [True, False]\<rparr>)) = [1, 0]"
  using relayOff_frame [of example_cw 0 "started\<lparr>relayState := [0, 0], stayOn := [True, False]\<rparr>"]
  by (simp add: started_eq onState_def LOW_def lnot_def)

text \<open>
  C6. For a pending key other than 1 .. 6 and B, \<open>processKey\<close> returns, having keyed the
  transmitter, sent the key character and then the question mark, and unkeyed; it drives
  no relay pin and leaves \<open>relayState\<close>, \<open>stayOn\<close> and \<open>nextRelay\<close> unchanged.
\<close>

theorem unmapped_key_echo:
  assumes "dtmfKey s \<notin> {0, ch CHR ''1'', ch CHR ''2'', ch CHR ''3'', ch CHR ''4'',
            ch CHR ''5'', ch CHR ''6'', ch CHR ''B''}"
  shows "\<exists>s'. processKey t a s = Inr s' \<and>
           trace s' = trace s @ [Delay 500, DigitalWrite PTT HIGH, Delay 400]
                      @ sendChar t (dtmfKey s) @ sendChar t (ch CHR ''?'')
                      @ [DigitalWrite PTT LOW] \<and>
           relay_free (drop (length (trace s)) (trace s')) \<and>
           relayState s' = relayState s \<and> stayOn s' = stayOn s \<and>
           nextRelay s' = nextRelay s \<and> dtmfKey s' = 0"
  using assms
  by (simp add: processKey_def processKey_switch_def pttDown_def pttUp_def perform_def
      Let_def)

theorem unmapped_key_echo_witness:
  "\<exists>s'. processKey example_cw 0 (started\<lparr>dtmfKey := ch CHR ''C''\<rparr>) = Inr s' \<and>
     relayState s' = [1, 1] \<and> stayOn s' = [False, False] \<and> nextRelay s' = [0, 0] \<and>
     trace s' = trace started @ [Delay 500, DigitalWrite P4 1, Delay 400, NoTone P0, Delay 82] 
        @ sendChar example_cw (ch CHR ''?'') @ [DigitalWrite P4 0]"
proof -
  have h: "dtmfKey (started\<lparr>dtmfKey := ch CHR ''C''\<rparr>) \<notin> {0, ch CHR ''1'', ch CHR ''2'',
      ch CHR ''3'', ch CHR ''4'', ch CHR ''5'', ch CHR ''6'', ch CHR ''B''}"
    by (simp add: ch_def)
  from unmapped_key_echo [OF h, of example_cw 0] obtain s' where
    "processKey example_cw 0 (started\<lparr>dtmfKey := ch CHR ''C''\<rparr>) = Inr s'"
    "trace s' = trace (started\<lparr>dtmfKey := ch CHR ''C''\<rparr>)
        @ [Delay 500, DigitalWrite PTT HIGH, Delay 400]
        @ sendChar example_cw (dtmfKey (started\<lparr>dtmfKey := ch CHR ''C''\<rparr>))
        @ sendChar example_cw (ch CHR ''?'') @ [DigitalWrite PTT LOW]"
    "relayState s' = relayState (started\<lparr>dtmfKey := ch CHR ''C''\<rparr>)"
    "stayOn s' = stayOn (started\<lparr>dtmfKey := ch CHR ''C''\<rparr>)"
    "nextRelay s' = nextRelay (started\<lparr>dtmfKey := ch CHR ''C''\<rparr>)"
    by blast
  then show ?thesis
    by (simp add: started_eq morse_defs PTT_def)
qed

section \<open>Sending a character\<close>

lemma find_ch_miss:
  "\<forall>m \<in> set (takeWhile (\<lambda>m. m \<noteq> 0) tbl). sint c \<noteq> uint m \<Longrightarrow> snd (find_ch tbl c k) = 0"
  by (induction tbl arbitrary: k) simp_all

lemma find_ch_hit:
  "\<exists>m \<in> set (takeWhile (\<lambda>m. m \<noteq> 0) tbl). sint c = uint m \<Longrightarrow>
   snd (find_ch tbl c k) \<noteq> 0 \<and> sint c = uint (snd (find_ch tbl c k))"
  by (induction tbl arbitrary: k) (auto split: if_splits)

lemma sint_u8_low: "uint (c :: u8) < 128 \<Longrightarrow> sint c = uint c"
proof -
  assume lt: "uint c < 128"
  have "- (2 ^ 7) \<le> uint c"
  proof -
    have "- (2 ^ 7 :: int) \<le> 0" by simp
    also have "0 \<le> uint c" by simp
    finally show ?thesis .
  qed
  with lt show ?thesis
    using signed_take_bit_int_eq_self [of 7 "uint c"] by (simp add: sint_uint)
qed

lemma sint_u8_high: "128 \<le> uint (c :: u8) \<Longrightarrow> sint c < 0"
proof -
  assume "128 \<le> uint c"
  then have "sint c \<le> uint c - 2 ^ 8"
    using signed_take_bit_int_less_eq [of 7 "uint c"] by (simp add: sint_uint)
  moreover have "uint c < 2 ^ 8"
    using uint_bounded [of c] by simp
  ultimately show ?thesis by simp
qed

lemma sint_uint_eq_8: "sint (c :: u8) = uint (m :: u8) \<Longrightarrow> c = m"
proof -
  assume a: "sint c = uint m"
  have "0 \<le> uint m" by simp
  with a have "\<not> sint c < 0" by simp
  then have "uint c < 128" using sint_u8_high [of c] by fastforce
  then have "sint c = uint c" by (rule sint_u8_low)
  with a have "uint c = uint m" by simp
  then show ?thesis by (rule word_uint_eqI)
qed

lemma sendChar_alt:
  "sendChar t c =
     (if snd (find_ch (chtable t) c 0) = ch CHR ''-'' then CharBreak
      else if snd (find_ch (chtable t) c 0) \<noteq> 0 then elements_of t c
      else [])
     @ (if c \<noteq> ch CHR '' '' \<and> c \<noteq> ch CHR ''-'' then CharBreak else [])"
proof (cases "find_ch (chtable t) c 0")
  case (Pair k m)
  then show ?thesis by (simp add: sendChar_def elements_of_def Let_def)
qed

lemma sendChar_cases:
  "sendChar t c =
     (if \<not> in_table t c then []
      else if c = ch CHR ''-'' then CharBreak
      else elements_of t c)
     @ (if c \<noteq> ch CHR '' '' \<and> c \<noteq> ch CHR ''-'' then CharBreak else [])"
proof (cases "in_table t c")
  case False
  then have "snd (find_ch (chtable t) c 0) = 0"
    by (simp add: in_table_def find_ch_miss)
  with False show ?thesis
    by (simp add: sendChar_alt ch_def)
next
  case True
  then have m: "snd (find_ch (chtable t) c 0) \<noteq> 0"
    "sint c = uint (snd (find_ch (chtable t) c 0))"
    using find_ch_hit [of "chtable t" c 0] by (simp_all add: in_table_def)
  then have "c = snd (find_ch (chtable t) c 0)" by (simp add: sint_uint_eq_8)
  with True m(1) show ?thesis
    by (simp add: sendChar_alt)
qed


text \<open>
  C8. A character that is not in the character table and is neither the space nor the
  gap marker \<open>-\<close> produces the character break and nothing else; the space and the gap
  marker, when not in the table, produce nothing. The gap marker of the table produces
  exactly one character break. The space of the table produces its elements and no
  character break. Every other character of the table produces its elements followed by
  the character break.
\<close>

theorem sendChar_gaps:
  "(\<not> in_table t c \<and> c \<noteq> ch CHR '' '' \<and> c \<noteq> ch CHR ''-'' \<longrightarrow> sendChar t c = CharBreak) \<and>
   (\<not> in_table t c \<and> (c = ch CHR '' '' \<or> c = ch CHR ''-'') \<longrightarrow> sendChar t c = []) \<and>
   (in_table t (ch CHR ''-'') \<longrightarrow> sendChar t (ch CHR ''-'') = CharBreak) \<and>
   (in_table t (ch CHR '' '') \<longrightarrow> sendChar t (ch CHR '' '') = elements_of t (ch CHR '' '')) \<and>
   (in_table t c \<and> c \<noteq> ch CHR '' '' \<and> c \<noteq> ch CHR ''-'' \<longrightarrow>
      sendChar t c = elements_of t c @ CharBreak)"
  by (simp add: sendChar_cases ch_def)

theorem sendChar_gaps_witness:
  "\<not> in_table example_cw (ch CHR ''Q'') \<and>
   sendChar example_cw (ch CHR ''Q'') = CharBreak \<and>
   in_table example_cw (ch CHR ''-'') \<and>
   sendChar example_cw (ch CHR ''-'') = CharBreak \<and>
   in_table example_cw (ch CHR '' '') \<and>
   sendChar example_cw (ch CHR '' '') = wordBreak \<and>
   in_table example_cw (ch CHR ''E'') \<and>
   sendChar example_cw (ch CHR ''E'') = dit @ CharBreak"
proof -
  have q: "\<not> in_table example_cw (ch CHR ''Q'')"
    by (simp add: in_table_def example_cw_def ch_def)
  have g: "in_table example_cw (ch CHR ''-'')"
    by (simp add: in_table_def example_cw_def ch_def)
  have b: "in_table example_cw (ch CHR '' '')"
    by (simp add: in_table_def example_cw_def ch_def)
  have e: "in_table example_cw (ch CHR ''E'')"
    by (simp add: in_table_def example_cw_def ch_def)
  have eb: "elements_of example_cw (ch CHR '' '') = wordBreak"
    by (simp add: elements_of_def sendElements_unfold example_cw_def ch_def Let_def)
  have ee: "elements_of example_cw (ch CHR ''E'') = dit"
    by (simp add: elements_of_def sendElements_unfold example_cw_def ch_def Let_def)
  show ?thesis
    using q g b e eb ee sendChar_gaps [of example_cw "ch CHR ''Q''"]
      sendChar_gaps [of example_cw "ch CHR ''E''"]
    by (simp add: ch_def)
qed

section \<open>Case folding of messages\<close>

lemma SendMorse_loop_concat:
  "SendMorse_loop t msg =
     concat (map (\<lambda>j. sendChar t (if 90 < sint j then j - 0x20 else j))
                 (takeWhile (\<lambda>j. j \<noteq> 0) msg))"
  by (induction msg) (simp_all add: ch_def)

lemma upper_props:
  assumes "0x41 \<le> (x :: u8)" and "x \<le> 0x5A"
  shows "x \<noteq> 0" and "\<not> 90 < sint x" and "x + 0x20 \<noteq> 0" and "90 < sint (x + 0x20)"
proof -
  have u: "65 \<le> uint x" "uint x \<le> 90"
    using assms by (simp_all add: word_le_def)
  then show "x \<noteq> 0" by auto
  from u have "sint x = uint x" by (simp add: sint_u8_low)
  with u show "\<not> 90 < sint x" by simp
  have "uint (x + 0x20) = (uint x + 32) mod 256"
    by (simp add: uint_word_ariths)
  with u have v: "uint (x + 0x20) = uint x + 32" by simp
  with u show "x + 0x20 \<noteq> 0" by auto
  from u v have "sint (x + 0x20) = uint (x + 0x20)" by (simp add: sint_u8_low)
  with u v show "90 < sint (x + 0x20)" by simp
qed

lemma lower_props:
  assumes "0x61 \<le> (j :: u8)" and "j \<le> 0x7A"
  shows "j \<noteq> 0" and "90 < sint j" and "0x41 \<le> j - 0x20" and "j - 0x20 \<le> 0x5A"
proof -
  have u: "97 \<le> uint j" "uint j \<le> 122"
    using assms by (simp_all add: word_le_def)
  then show "j \<noteq> 0" by auto
  from u have "sint j = uint j" by (simp add: sint_u8_low)
  with u show "90 < sint j" by simp
  have "uint (j - 0x20) = (uint j - 32) mod 256"
    by (simp add: uint_word_ariths)
  with u have v: "uint (j - 0x20) = uint j - 32" by simp
  with u show "0x41 \<le> j - 0x20" "j - 0x20 \<le> 0x5A" by (simp_all add: word_le_def)
qed

lemma SendMorse_loop_lower:
  "\<forall>x\<in>set msg. 0x41 \<le> x \<and> x \<le> 0x5A \<Longrightarrow>
   SendMorse_loop t (map (\<lambda>x. x + 0x20) msg) = SendMorse_loop t msg"
  by (induction msg) (simp_all add: upper_props ch_def)

text \<open>
  C10. \<open>SendMorse\<close> sends, for each byte of the message up to its NUL, the character
  obtained by subtracting 0x20 when the byte, as a char, is greater than Z, and the byte
  itself otherwise. A lowercase letter is thereby sent as the uppercase letter, so a
  message of uppercase letters written in lowercase is transmitted identically, and a
  byte at or below Z is looked up unmodified.
\<close>

theorem SendMorse_case_fold:
  "SendMorse_loop t msg =
     concat (map (\<lambda>j. sendChar t (if sint (ch CHR ''Z'') < sint j then j - 0x20 else j))
                 (takeWhile (\<lambda>j. j \<noteq> 0) msg)) \<and>
   (ch CHR ''a'' \<le> j \<and> j \<le> ch CHR ''z'' \<longrightarrow>
      SendMorse_loop t (j # js) = sendChar t (j - 0x20) @ SendMorse_loop t js \<and>
      ch CHR ''A'' \<le> j - 0x20 \<and> j - 0x20 \<le> ch CHR ''Z'') \<and>
   (j \<noteq> 0 \<and> sint j \<le> sint (ch CHR ''Z'') \<longrightarrow>
      SendMorse_loop t (j # js) = sendChar t j @ SendMorse_loop t js) \<and>
   ((\<forall>x\<in>set msg. ch CHR ''A'' \<le> x \<and> x \<le> ch CHR ''Z'') \<longrightarrow>
      SendMorse t (map (\<lambda>x. x + 0x20) msg) p s = SendMorse t msg p s)"
proof -
  have "SendMorse t (map (\<lambda>x. x + 0x20) msg) p s = SendMorse t msg p s"
    if "\<forall>x\<in>set msg. 0x41 \<le> x \<and> x \<le> 0x5A"
    using that by (simp add: SendMorse_def SendMorse_loop_lower)
  moreover have "SendMorse_loop t (j # js) = sendChar t (j - 0x20) @ SendMorse_loop t js \<and>
      0x41 \<le> j - 0x20 \<and> j - 0x20 \<le> 0x5A" if "0x61 \<le> j \<and> j \<le> 0x7A"
    using that lower_props [of j] by (simp add: ch_def)
  ultimately show ?thesis
    using SendMorse_loop_concat [of t msg] by (simp add: ch_def)
qed

theorem SendMorse_case_fold_witness:
  "ch CHR ''a'' \<le> ch CHR ''e'' \<and> ch CHR ''e'' \<le> ch CHR ''z'' \<and>
   SendMorse_loop example_cw (map ch ''et'') = sendChar example_cw (ch CHR ''E'') @ sendChar example_cw (ch CHR ''T'') \<and>
   SendMorse example_cw (map ch ''et'') 0 started = SendMorse example_cw (map ch ''ET'') 0 started"
  using SendMorse_case_fold [of example_cw "map ch ''ET''" "ch CHR ''e''" "[ch CHR ''t'']" 0 started]
     SendMorse_case_fold [of example_cw "map ch ''ET''" "ch CHR ''t''" "[]" 0 started]
  by (simp add: ch_def)

section \<open>Relays across ticks without an accepted key\<close>

lemma keeps_refl: "keeps r s s"
  by (simp add: keeps_def)

lemma keeps_trans: "keeps r s s1 \<Longrightarrow> keeps r s1 s2 \<Longrightarrow> keeps r s s2"
  by (auto simp: keeps_def)

lemma keeps_held: "keeps r s s' \<Longrightarrow> held r n s \<Longrightarrow> held r n s'"
  by (auto simp: keeps_def held_def)

lemma keeps_armed_or_off: "keeps r s s' \<Longrightarrow> armed_or_off r d n s \<Longrightarrow> armed_or_off r d n s'"
  by (auto simp: keeps_def armed_or_off_def switched_off_def)

lemma keeps_switched_off: "keeps r s s' \<Longrightarrow> switched_off r n s \<Longrightarrow> switched_off r n s'"
  by (auto simp: keeps_def switched_off_def)

lemma relay_free_pin: "relay_free evs \<Longrightarrow> r < numRelays \<Longrightarrow> DigitalWrite (relayPin ! r) v \<notin> set evs"
  by (auto simp: relay_free_def numRelays_def)

lemma loop_dtmf_quiet:
  "\<not> key_accepted inp s \<Longrightarrow>
   \<exists>s1. loop_dtmf t inp (millis s) s = Inr s1 \<and> keeps r s s1 \<and> millis s1 = millis s"
  by (auto simp: loop_dtmf_def key_accepted_def checkDTMF_def keeps_def)

lemma loop_cmd_keeps: "r < numRelays \<Longrightarrow> keeps r s (loop_cmd t now s)"
  by (simp add: loop_cmd_def SendMorse_eq keeps_def relay_free_pin)

lemma loop_id_keeps: "r < numRelays \<Longrightarrow> keeps r s (loop_id t now s)"
  by (simp add: loop_id_def SendMorse_eq keeps_def Let_def relay_free_pin)

lemma sleep_mode_keeps: "keeps r s (sleep_mode d s)"
  by (simp add: sleep_mode_def perform_def keeps_def)

lemma relayPin_inj: "i < numRelays \<Longrightarrow> r < numRelays \<Longrightarrow> i \<noteq> r \<Longrightarrow> relayPin ! i \<noteq> relayPin ! r"
  by (auto simp: less_numRelays relayPin_def)

lemma relay_check_other:
  "i \<noteq> r \<Longrightarrow> i < numRelays \<Longrightarrow> r < numRelays \<Longrightarrow> keeps r s (relay_check t now i s)"
  by (simp add: relay_check_def relayOff_eq keeps_def relay_free_pin relayPin_inj)


lemma switched_off_armed_or_off: "switched_off r n s \<Longrightarrow> armed_or_off r d n s"
  by (simp add: switched_off_def armed_or_off_def)

lemma relay_check_held:
  assumes "held r n s" and "i < numRelays" and "r < numRelays"
  shows "held r n (relay_check t now i s)"
proof (cases "i = r")
  case True
  with assms(1) show ?thesis by (simp add: relay_check_def held_def)
next
  case False
  then have "keeps r s (relay_check t now i s)"
    using assms(2,3) by (simp add: relay_check_other)
  then show ?thesis using assms(1) by (rule keeps_held)
qed

lemma relay_check_switched_off:
  assumes "switched_off r n s" and "i < numRelays" and "r < numRelays"
  shows "switched_off r n (relay_check t now i s)"
proof (cases "i = r")
  case True
  with assms(1) show ?thesis by (simp add: relay_check_def switched_off_def lnot_neq)
next
  case False
  then have "keeps r s (relay_check t now i s)"
    using assms(2,3) by (simp add: relay_check_other)
  then show ?thesis using assms(1) by (rule keeps_switched_off)
qed

lemma relayOff_switched_off:
  "r < length (relayState s) \<Longrightarrow> n \<le> length (trace s) \<Longrightarrow> switched_off r n (relayOff t r s)"
  by (simp add: relayOff_eq switched_off_def)

lemma relay_check_armed_or_off:
  assumes "armed_or_off r d n s" and "i < numRelays" and "r < numRelays"
  shows "armed_or_off r d n (relay_check t now i s)"
proof (cases "i = r")
  case False
  then have "keeps r s (relay_check t now i s)"
    using assms(2,3) by (simp add: relay_check_other)
  then show ?thesis using assms(1) by (rule keeps_armed_or_off)
next
  case True
  show ?thesis
  proof (cases "relay_check t now i s = s")
    case True
    with assms(1) show ?thesis by simp
  next
    case False
    then have "relay_check t now i s = relayOff t r s"
      using \<open>i = r\<close> by (simp add: relay_check_def split: if_splits)
    moreover have "switched_off r n (relayOff t r s)"
      using assms(1) by (simp add: relayOff_switched_off armed_or_off_def)
    ultimately show ?thesis by (simp add: switched_off_armed_or_off)
  qed
qed

lemma relay_check_due:
  assumes "armed_or_off r d n s" and "sint (d - now) < 0" and "r < numRelays"
  shows "switched_off r n (relay_check t now r s)"
proof (cases "relayState s ! r = onState ! r")
  case True
  with assms(1,2) have "relay_check t now r s = relayOff t r s"
    by (auto simp: relay_check_def armed_or_off_def switched_off_def lnot_neq)
  with assms(1) show ?thesis by (simp add: relayOff_switched_off armed_or_off_def)
next
  case False
  with assms(1) have "switched_off r n s"
    by (auto simp: armed_or_off_def)
  then show ?thesis using assms(3) by (simp add: relay_check_switched_off)
qed

lemma loop_relays_held:
  "held r n s \<Longrightarrow> r < numRelays \<Longrightarrow> \<forall>i\<in>set is. i < numRelays \<Longrightarrow>
   held r n (loop_relays t now is s)"
  by (induction "is" arbitrary: s) (simp_all add: relay_check_held)

lemma loop_relays_switched_off:
  "switched_off r n s \<Longrightarrow> r < numRelays \<Longrightarrow> \<forall>i\<in>set is. i < numRelays \<Longrightarrow>
   switched_off r n (loop_relays t now is s)"
  by (induction "is" arbitrary: s) (simp_all add: relay_check_switched_off)

lemma loop_relays_armed_or_off:
  "armed_or_off r d n s \<Longrightarrow> r < numRelays \<Longrightarrow> \<forall>i\<in>set is. i < numRelays \<Longrightarrow>
   armed_or_off r d n (loop_relays t now is s)"
  by (induction "is" arbitrary: s) (simp_all add: relay_check_armed_or_off)

lemma loop_relays_due:
  "armed_or_off r d n s \<Longrightarrow> sint (d - now) < 0 \<Longrightarrow> r \<in> set is \<Longrightarrow>
   \<forall>i\<in>set is. i < numRelays \<Longrightarrow> switched_off r n (loop_relays t now is s)"
proof (induction "is" arbitrary: s)
  case Nil
  then show ?case by simp
next
  case (Cons i "is")
  from Cons.prems(3,4) have r: "r < numRelays" by auto
  from Cons.prems(4) have i: "i < numRelays" "\<forall>i\<in>set is. i < numRelays" by simp_all
  show ?case
  proof (cases "i = r")
    case True
    with Cons.prems(1,2) r have "switched_off r n (relay_check t now i s)"
      by (simp add: relay_check_due)
    then show ?thesis using r i(2) by (simp add: loop_relays_switched_off)
  next
    case False
    with Cons.prems(3) have "r \<in> set is" by simp
    moreover have "armed_or_off r d n (relay_check t now i s)"
      using Cons.prems(1) i(1) r by (rule relay_check_armed_or_off)
    ultimately show ?thesis using Cons.IH Cons.prems(2) i(2) by simp
  qed
qed

lemma loop_quiet:
  assumes "\<not> key_accepted inp s" and "r < numRelays"
  shows "\<exists>s1. keeps r s s1 \<and>
           loop t inp s = Inr (sleep_mode (idle inp)
             (loop_relays t (millis s) [0..<numRelays] s1))"
proof -
  from loop_dtmf_quiet [OF assms(1), of t r]
  obtain s1 where s1: "loop_dtmf t inp (millis s) s = Inr s1" "keeps r s s1" by blast
  let ?s3 = "loop_id t (millis s) (loop_cmd t (millis s) s1)"
  have "keeps r s1 (loop_cmd t (millis s) s1)" using assms(2) by (rule loop_cmd_keeps)
  moreover have "keeps r (loop_cmd t (millis s) s1) ?s3" using assms(2) by (rule loop_id_keeps)
  ultimately have "keeps r s ?s3"
    using s1(2) keeps_trans by blast
  moreover have "loop t inp s = Inr (sleep_mode (idle inp)
      (loop_relays t (millis s) [0..<numRelays] ?s3))"
    by (simp add: loop_def s1(1) Let_def)
  ultimately show ?thesis by blast
qed

lemma loop_quiet_held:
  assumes "\<not> key_accepted inp s" and "held r n s" and "r < numRelays"
  shows "\<exists>s'. loop t inp s = Inr s' \<and> held r n s'"
proof -
  from loop_quiet [OF assms(1,3), of t] obtain s1 where
    k: "keeps r s s1" and
    l: "loop t inp s = Inr (sleep_mode (idle inp) (loop_relays t (millis s) [0..<numRelays] s1))"
    by blast
  have "held r n s1" using k assms(2) by (rule keeps_held)
  then have "held r n (loop_relays t (millis s) [0..<numRelays] s1)"
    using assms(3) by (simp add: loop_relays_held)
  then have "held r n (sleep_mode (idle inp) (loop_relays t (millis s) [0..<numRelays] s1))"
    using sleep_mode_keeps keeps_held by blast
  with l show ?thesis by simp
qed

lemma loop_quiet_armed_or_off:
  assumes "\<not> key_accepted inp s" and "armed_or_off r d n s" and "r < numRelays"
  shows "\<exists>s'. loop t inp s = Inr s' \<and> armed_or_off r d n s'"
proof -
  from loop_quiet [OF assms(1,3), of t] obtain s1 where
    k: "keeps r s s1" and
    l: "loop t inp s = Inr (sleep_mode (idle inp) (loop_relays t (millis s) [0..<numRelays] s1))"
    by blast
  have "armed_or_off r d n s1" using k assms(2) by (rule keeps_armed_or_off)
  then have "armed_or_off r d n (loop_relays t (millis s) [0..<numRelays] s1)"
    using assms(3) by (simp add: loop_relays_armed_or_off)
  then have "armed_or_off r d n
      (sleep_mode (idle inp) (loop_relays t (millis s) [0..<numRelays] s1))"
    using sleep_mode_keeps keeps_armed_or_off by blast
  with l show ?thesis by simp
qed

lemma loop_quiet_due:
  assumes "\<not> key_accepted inp s" and "armed_or_off r d n s"
    and "sint (d - millis s) < 0" and "r < numRelays"
  shows "\<exists>s'. loop t inp s = Inr s' \<and> switched_off r n s'"
proof -
  from loop_quiet [OF assms(1,4), of t] obtain s1 where
    k: "keeps r s s1" and
    l: "loop t inp s = Inr (sleep_mode (idle inp) (loop_relays t (millis s) [0..<numRelays] s1))"
    by blast
  have "armed_or_off r d n s1" using k assms(2) by (rule keeps_armed_or_off)
  then have "switched_off r n (loop_relays t (millis s) [0..<numRelays] s1)"
    using assms(3,4) by (simp add: loop_relays_due)
  then have "switched_off r n
      (sleep_mode (idle inp) (loop_relays t (millis s) [0..<numRelays] s1))"
    using sleep_mode_keeps keeps_switched_off by blast
  with l show ?thesis by simp
qed

lemma run_quiet_held:
  "quiet t ins s \<Longrightarrow> held r n s \<Longrightarrow> r < numRelays \<Longrightarrow>
   \<exists>s'. run t ins s = Inr s' \<and> held r n s'"
proof (induction ins arbitrary: s)
  case Nil
  then show ?case by simp
next
  case (Cons i ins)
  from Cons.prems(1) have q: "\<not> key_accepted i s" by simp
  from loop_quiet_held [OF q Cons.prems(2,3), of t] obtain s1 where
    s1: "loop t i s = Inr s1" "held r n s1" by blast
  with Cons.prems(1) have "quiet t ins s1" by simp
  from Cons.IH [OF this s1(2) Cons.prems(3)] s1(1) show ?case by simp
qed

lemma run_quiet_armed_or_off:
  "quiet t ins s \<Longrightarrow> armed_or_off r d n s \<Longrightarrow> r < numRelays \<Longrightarrow>
   \<exists>s'. run t ins s = Inr s' \<and> armed_or_off r d n s'"
proof (induction ins arbitrary: s)
  case Nil
  then show ?case by simp
next
  case (Cons i ins)
  from Cons.prems(1) have q: "\<not> key_accepted i s" by simp
  from loop_quiet_armed_or_off [OF q Cons.prems(2,3), of t] obtain s1 where
    s1: "loop t i s = Inr s1" "armed_or_off r d n s1" by blast
  with Cons.prems(1) have "quiet t ins s1" by simp
  from Cons.IH [OF this s1(2) Cons.prems(3)] s1(1) show ?case by simp
qed

lemma processKey_timed:
  assumes "r < numRelays" and "dtmfKey s = timedKey r"
  shows "\<exists>s0. processKey t a s = Inr s0 \<and>
           relayState s0 = (relayState s)[r := onState ! r] \<and>
           stayOn s0 = (stayOn s)[r := False] \<and>
           nextRelay s0 = (nextRelay s)[r := millis s0 + RELAY_PERIOD] \<and>
           trace s0 = trace s @ Delay 500 # DigitalWrite (relayPin ! r) (onState ! r)
                        # keying t onMsg (of_nat r + ch CHR ''1'') \<and>
           dtmfKey s0 = 0"
  using assms
  by (auto simp: less_numRelays timedKey_def processKey_def processKey_switch_def
      relayOn_eq perform_def ch_def Let_def)

lemma processKey_hold:
  assumes "r < numRelays" and "dtmfKey s = holdKey r"
  shows "\<exists>s0. processKey t a s = Inr s0 \<and>
           relayState s0 = (relayState s)[r := onState ! r] \<and>
           stayOn s0 = (stayOn s)[r := True] \<and>
           nextRelay s0 = nextRelay s \<and>
           trace s0 = trace s @ Delay 500 # DigitalWrite (relayPin ! r) (onState ! r)
                        # keying t perMsg (of_nat r + ch CHR ''1'') \<and>
           dtmfKey s0 = 0"
  using assms
  by (auto simp: less_numRelays holdKey_def processKey_def processKey_switch_def
      relayOn_eq perform_def ch_def Let_def)

lemma key_accepted_check:
  "key_accepted inp s \<Longrightarrow>
   sint (nextDTMF s - millis s) < 0 \<and>
   checkDTMF (sample inp) s = (True, s\<lparr>waitForSpace := False\<rparr>)"
  by (auto simp: key_accepted_def checkDTMF_def split: if_splits)

lemma accept_tick:
  assumes "key_accepted inp s"
    and "processKey t (adc inp) (snd (checkDTMF (sample inp) s)) = Inr s0"
    and "r < numRelays"
  shows "\<exists>s1. keeps r s0 s1 \<and>
           loop t inp s = Inr (sleep_mode (idle inp)
             (loop_relays t (millis s) [0..<numRelays] s1))"
proof -
  from key_accepted_check [OF assms(1)] have due: "sint (nextDTMF s - millis s) < 0"
    and chk: "checkDTMF (sample inp) s = (True, s\<lparr>waitForSpace := False\<rparr>)"
    by simp_all
  let ?s1 = "s0\<lparr>nextDTMF := millis s + DTMF_PERIOD\<rparr>"
  let ?s3 = "loop_id t (millis s) (loop_cmd t (millis s) ?s1)"
  have d: "loop_dtmf t inp (millis s) s = Inr ?s1"
    using due chk assms(2) by (simp add: loop_dtmf_def)
  have "keeps r s0 ?s1" by (simp add: keeps_def)
  moreover have "keeps r ?s1 (loop_cmd t (millis s) ?s1)" using assms(3) by (rule loop_cmd_keeps)
  moreover have "keeps r (loop_cmd t (millis s) ?s1) ?s3" using assms(3) by (rule loop_id_keeps)
  ultimately have "keeps r s0 ?s3"
    using keeps_trans by blast
  moreover have "loop t inp s = Inr (sleep_mode (idle inp)
      (loop_relays t (millis s) [0..<numRelays] ?s3))"
    by (simp add: loop_def d Let_def)
  ultimately show ?thesis by blast
qed

lemma accept_tick_held:
  assumes "key_accepted inp s"
    and "processKey t (adc inp) (snd (checkDTMF (sample inp) s)) = Inr s0"
    and "r < numRelays" and "held r n s0"
  shows "\<exists>s'. loop t inp s = Inr s' \<and> held r n s'"
proof -
  from accept_tick [OF assms(1,2,3)] obtain s1 where
    k: "keeps r s0 s1" and
    l: "loop t inp s = Inr (sleep_mode (idle inp) (loop_relays t (millis s) [0..<numRelays] s1))"
    by blast
  have "held r n s1" using k assms(4) by (rule keeps_held)
  then have "held r n (loop_relays t (millis s) [0..<numRelays] s1)"
    using assms(3) by (simp add: loop_relays_held)
  then have "held r n (sleep_mode (idle inp) (loop_relays t (millis s) [0..<numRelays] s1))"
    using sleep_mode_keeps keeps_held by blast
  with l show ?thesis by simp
qed

lemma accept_tick_armed_or_off:
  assumes "key_accepted inp s"
    and "processKey t (adc inp) (snd (checkDTMF (sample inp) s)) = Inr s0"
    and "r < numRelays" and "armed_or_off r d n s0"
  shows "\<exists>s'. loop t inp s = Inr s' \<and> armed_or_off r d n s'"
proof -
  from accept_tick [OF assms(1,2,3)] obtain s1 where
    k: "keeps r s0 s1" and
    l: "loop t inp s = Inr (sleep_mode (idle inp) (loop_relays t (millis s) [0..<numRelays] s1))"
    by blast
  have "armed_or_off r d n s1" using k assms(4) by (rule keeps_armed_or_off)
  then have "armed_or_off r d n (loop_relays t (millis s) [0..<numRelays] s1)"
    using assms(3) by (simp add: loop_relays_armed_or_off)
  then have "armed_or_off r d n
      (sleep_mode (idle inp) (loop_relays t (millis s) [0..<numRelays] s1))"
    using sleep_mode_keeps keeps_armed_or_off by blast
  with l show ?thesis by simp
qed

lemma loop_quiet_switched_off:
  assumes "\<not> key_accepted inp s" and "switched_off r n s" and "r < numRelays"
  shows "\<exists>s'. loop t inp s = Inr s' \<and> switched_off r n s'"
proof -
  from loop_quiet [OF assms(1,3), of t] obtain s1 where
    k: "keeps r s s1" and
    l: "loop t inp s = Inr (sleep_mode (idle inp) (loop_relays t (millis s) [0..<numRelays] s1))"
    by blast
  have "switched_off r n s1" using k assms(2) by (rule keeps_switched_off)
  then have "switched_off r n (loop_relays t (millis s) [0..<numRelays] s1)"
    using assms(3) by (simp add: loop_relays_switched_off)
  then have "switched_off r n
      (sleep_mode (idle inp) (loop_relays t (millis s) [0..<numRelays] s1))"
    using sleep_mode_keeps keeps_switched_off by blast
  with l show ?thesis by simp
qed

lemma unat_elapsed_add:
  assumes "unat (b - a :: u32) + unat (c - b) \<le> unat RELAY_PERIOD + 2 ^ 31"
  shows "unat (c - a) = unat (b - a) + unat (c - b)"
proof -
  have "unat RELAY_PERIOD + 2 ^ 31 < (2 :: nat) ^ LENGTH(32)"
    by (simp add: RELAY_PERIOD_def)
  with assms have "unat (b - a) + unat (c - b) < 2 ^ LENGTH(32)" by linarith
  then have "unat ((b - a) + (c - b)) = unat (b - a) + unat (c - b)"
    by (rule unat_add_lem [THEN iffD1])
  moreover have "(b - a) + (c - b) = c - a" by simp
  ultimately show ?thesis by simp
qed

lemma timed_two_ticks:
  assumes r: "r < numRelays"
    and a: "armed_or_off r (millis s0 + RELAY_PERIOD) n s'"
    and q: "quiet t ins s'" and ru: "run t ins s' = Inr s1"
    and e1: "unat RELAY_PERIOD \<le> unat (millis s1 - millis s0)"
    and k1: "\<not> key_accepted i1 s1" and l1: "loop t i1 s1 = Inr s2"
    and k2: "\<not> key_accepted i2 s2"
    and adv: "0 < unat (millis s2 - millis s1)"
    and w: "unat (millis s1 - millis s0) + unat (millis s2 - millis s1)
              \<le> unat RELAY_PERIOD + 2 ^ 31"
  shows "\<exists>s3. loop t i2 s2 = Inr s3 \<and> switched_off r n s3"
proof -
  from run_quiet_armed_or_off [OF q a r] ru
  have a1: "armed_or_off r (millis s0 + RELAY_PERIOD) n s1" by simp
  from loop_quiet_armed_or_off [OF k1 a1 r, of t] l1
  have a2: "armed_or_off r (millis s0 + RELAY_PERIOD) n s2" by simp
  have e2: "unat (millis s2 - millis s0)
      = unat (millis s1 - millis s0) + unat (millis s2 - millis s1)"
    using w by (rule unat_elapsed_add)
  have "unat RELAY_PERIOD < unat (millis s2 - millis s0)"
    using e1 adv e2 by linarith
  moreover have "unat (millis s2 - millis s0) \<le> unat RELAY_PERIOD + 2 ^ 31"
    using w e2 by linarith
  ultimately have due: "sint (millis s0 + RELAY_PERIOD - millis s2) < 0"
    by (rule elapsed_due)
  from k2 a2 due r show ?thesis by (rule loop_quiet_due)
qed

lemma timed_run:
  assumes r: "r < numRelays"
    and a: "armed_or_off r (millis s0 + RELAY_PERIOD) n s'"
    and q: "quiet t ins s'" and ru: "run t ins s' = Inr s1"
    and k: "\<not> key_accepted i s1"
    and w1: "unat RELAY_PERIOD < unat (millis s1 - millis s0)"
    and w2: "unat (millis s1 - millis s0) \<le> unat RELAY_PERIOD + 2 ^ 31"
  shows "\<exists>s2. loop t i s1 = Inr s2 \<and> switched_off r n s2"
proof -
  from run_quiet_armed_or_off [OF q a r] ru
  have a1: "armed_or_off r (millis s0 + RELAY_PERIOD) n s1" by simp
  have due: "sint (millis s0 + RELAY_PERIOD - millis s1) < 0"
    using w1 w2 by (rule elapsed_due)
  from k a1 due r show ?thesis by (rule loop_quiet_due)
qed

lemma accepted_timed:
  assumes "r < numRelays" and "key_accepted inp s" and "dtmfKey s = timedKey r"
    and "arrays_ok s"
  shows "\<exists>s0 s'. processKey t (adc inp) (snd (checkDTMF (sample inp) s)) = Inr s0 \<and>
           relayState s0 ! r = onState ! r \<and> \<not> stayOn s0 ! r \<and>
           nextRelay s0 ! r = millis s0 + RELAY_PERIOD \<and>
           trace s0 = trace s @ Delay 500 # DigitalWrite (relayPin ! r) (onState ! r)
                        # keying t onMsg (of_nat r + ch CHR ''1'') \<and>
           loop t inp s = Inr s' \<and>
           armed_or_off r (millis s0 + RELAY_PERIOD) (length (trace s0)) s'"
proof -
  let ?c = "snd (checkDTMF (sample inp) s)"
  from key_accepted_check [OF assms(2)] have c: "?c = s\<lparr>waitForSpace := False\<rparr>" by simp
  then have key: "dtmfKey ?c = timedKey r" using assms(3) by simp
  from processKey_timed [OF assms(1) key, of t "adc inp"] obtain s0 where
    p: "processKey t (adc inp) ?c = Inr s0" and
    rs: "relayState s0 = (relayState ?c)[r := onState ! r]" and
    so: "stayOn s0 = (stayOn ?c)[r := False]" and
    nr: "nextRelay s0 = (nextRelay ?c)[r := millis s0 + RELAY_PERIOD]" and
    tr: "trace s0 = trace ?c @ Delay 500 # DigitalWrite (relayPin ! r) (onState ! r)
                        # keying t onMsg (of_nat r + ch CHR ''1'')"
    by blast
  from assms(1,4) c have len: "r < length (relayState ?c)" "r < length (stayOn ?c)"
    "r < length (nextRelay ?c)"
    by (simp_all add: arrays_ok_def)
  have on: "relayState s0 ! r = onState ! r" "\<not> stayOn s0 ! r"
    "nextRelay s0 ! r = millis s0 + RELAY_PERIOD"
    using rs so nr len by simp_all
  have a: "armed_or_off r (millis s0 + RELAY_PERIOD) (length (trace s0)) s0"
    using on rs len by (simp add: armed_or_off_def)
  from accept_tick_armed_or_off [OF assms(2) p assms(1) a] obtain s' where
    "loop t inp s = Inr s'" "armed_or_off r (millis s0 + RELAY_PERIOD) (length (trace s0)) s'"
    by blast
  with p on tr c show ?thesis by auto
qed

lemma run_snoc: "run t ins s = Inr s1 \<Longrightarrow> run t (ins @ [i]) s = loop t i s1"
  by (induction ins arbitrary: s) (auto split: sum.splits)

lemma quiet_snoc:
  "quiet t ins s \<Longrightarrow> run t ins s = Inr s1 \<Longrightarrow> \<not> key_accepted i s1 \<Longrightarrow>
   loop t i s1 = Inr s2 \<Longrightarrow> quiet t (ins @ [i]) s"
  by (induction ins arbitrary: s) (auto split: sum.splits)

text \<open>
  C5. For each relay \<open>r\<close>, in a tick that accepts its "on until turned off" key,
  \<open>processKey\<close> returns with relay \<open>r\<close> on and held. After that tick and any number of
  further ticks in which no key is accepted, whatever time they take, relay \<open>r\<close> is still
  on and held and nothing has driven its pin; the auto-off check of a relay whose
  \<open>stayOn\<close> flag is set changes nothing.
\<close>

theorem held_relay_stays_on:
  assumes "r < numRelays" and "key_accepted inp s" and "dtmfKey s = holdKey r"
    and "arrays_ok s"
  shows "\<exists>s0 s'.
           processKey t (adc inp) (snd (checkDTMF (sample inp) s)) = Inr s0 \<and>
           relayState s0 ! r = onState ! r \<and> stayOn s0 ! r \<and>
           loop t inp s = Inr s' \<and>
           (\<forall>ins. quiet t ins s' \<longrightarrow>
              (\<exists>s1. run t ins s' = Inr s1 \<and>
                    relayState s1 ! r = onState ! r \<and> stayOn s1 ! r \<and>
                    (\<forall>v. DigitalWrite (relayPin ! r) v
                           \<notin> set (drop (length (trace s0)) (trace s1))))) \<and>
           (\<forall>now s''. stayOn s'' ! r \<longrightarrow> relay_check t now r s'' = s'')"
proof -
  let ?c = "snd (checkDTMF (sample inp) s)"
  from key_accepted_check [OF assms(2)] have c: "?c = s\<lparr>waitForSpace := False\<rparr>" by simp
  then have key: "dtmfKey ?c = holdKey r" using assms(3) by simp
  from processKey_hold [OF assms(1) key, of t "adc inp"] obtain s0 where
    p: "processKey t (adc inp) ?c = Inr s0" and
    rs: "relayState s0 = (relayState ?c)[r := onState ! r]" and
    so: "stayOn s0 = (stayOn ?c)[r := True]"
    by blast
  from assms(1,4) c have len: "r < length (relayState ?c)" "r < length (stayOn ?c)"
    by (simp_all add: arrays_ok_def)
  have h: "held r (length (trace s0)) s0"
    using rs so len by (simp add: held_def)
  have on: "relayState s0 ! r = onState ! r" "stayOn s0 ! r"
    using h by (simp_all add: held_def)
  from accept_tick_held [OF assms(2) p assms(1) h] obtain s' where
    l: "loop t inp s = Inr s'" and h': "held r (length (trace s0)) s'"
    by blast
  have stays: "\<exists>s1. run t ins s' = Inr s1 \<and>
            relayState s1 ! r = onState ! r \<and> stayOn s1 ! r \<and>
            (\<forall>v. DigitalWrite (relayPin ! r) v \<notin> set (drop (length (trace s0)) (trace s1)))"
    if "quiet t ins s'" for ins
  proof -
    from run_quiet_held [OF that h' assms(1)] obtain s1 where
      "run t ins s' = Inr s1" "held r (length (trace s0)) s1" by blast
    then show ?thesis unfolding held_def by blast
  qed
  have skip: "relay_check t now r s'' = s''" if "stayOn s'' ! r" for now s''
    using that by (simp add: relay_check_def)
  show ?thesis
    using p on l stays skip by blast
qed

theorem held_relay_stays_on_witness:
  "\<exists>s0 s' s1.
     key_accepted \<lparr>sample = 0, adc = 0, idle = 1\<rparr>
       (started\<lparr>millis := 10, dtmfKey := ch CHR ''3'', waitForSpace := True\<rparr>) \<and>
     processKey example_cw 0
       (started\<lparr>millis := 10, dtmfKey := ch CHR ''3'', waitForSpace := False\<rparr>) = Inr s0 \<and>
     loop example_cw \<lparr>sample = 0, adc = 0, idle = 1\<rparr>
       (started\<lparr>millis := 10, dtmfKey := ch CHR ''3'', waitForSpace := True\<rparr>) = Inr s' \<and>
     millis s' = 2724 \<and>
     quiet example_cw [\<lparr>sample = 0, adc = 0, idle = 4000000000\<rparr>] s' \<and>
     run example_cw [\<lparr>sample = 0, adc = 0, idle = 4000000000\<rparr>] s' = Inr s1 \<and>
     millis s1 = 4000002724 \<and>
     relayState s1 ! 0 = onState ! 0 \<and> stayOn s1 ! 0 \<and>
     relay_check example_cw (millis s1) 0 s1 = s1"
proof -
  let ?s = "started\<lparr>millis := 10, dtmfKey := ch CHR ''3'', waitForSpace := True\<rparr>"
  let ?i = "\<lparr>sample = 0, adc = 0, idle = 1\<rparr> :: input"
  let ?a = "\<lparr>sample = 0, adc = 0, idle = 4000000000\<rparr> :: input"
  let ?S0 = "started\<lparr>millis := 2723,
      trace := trace started @ Delay 500 # DigitalWrite P2 0 # keying example_cw perMsg 0x31,
      nextID := 30910, relayState := [0, 1], stayOn := [True, False]\<rparr>"
  let ?S' = "?S0\<lparr>millis := 2724, trace := trace ?S0 @ [SleepIdle], nextDTMF := 110\<rparr>"
  let ?S1 = "?S'\<lparr>millis := 4000002724, trace := trace ?S' @ [SleepIdle], nextDTMF := 2824\<rparr>"
  have h1: "0 < numRelays" by (simp add: numRelays_2)
  have h2: "key_accepted ?i ?s"
    by (simp add: key_accepted_def checkDTMF_def started_eq ch_def)
  have h3: "dtmfKey ?s = holdKey 0" by (simp add: holdKey_def)
  have h4: "arrays_ok ?s" by (simp add: arrays_ok_def started_eq numRelays_2)
  have c: "snd (checkDTMF (sample ?i) ?s)
      = started\<lparr>millis := 10, dtmfKey := ch CHR ''3'', waitForSpace := False\<rparr>"
    by (simp add: checkDTMF_def started_eq)
  from held_relay_stays_on [OF h1 h2 h3 h4, of example_cw] obtain s0 s' where
    p: "processKey example_cw (adc ?i) (snd (checkDTMF (sample ?i) ?s)) = Inr s0" and
    l: "loop example_cw ?i ?s = Inr s'" and
    imp: "\<And>ins. quiet example_cw ins s' \<Longrightarrow>
         \<exists>s1. run example_cw ins s' = Inr s1 \<and>
              relayState s1 ! 0 = onState ! 0 \<and> stayOn s1 ! 0 \<and>
              (\<forall>v. DigitalWrite (relayPin ! 0) v \<notin> set (drop (length (trace s0)) (trace s1)))" and
    skip: "\<And>now s''. stayOn s'' ! 0 \<Longrightarrow> relay_check example_cw now 0 s'' = s''"
    by blast
  have pe: "processKey example_cw 0
      (started\<lparr>millis := 10, dtmfKey := ch CHR ''3'', waitForSpace := False\<rparr>) = Inr ?S0"
    by (simp add: key_defs)
  have "loop example_cw ?i ?s = Inr ?S'"
    by (simp add: accept_defs key_defs)
  with l have s': "s' = ?S'" by simp
  have q: "quiet example_cw [?a] s'"
    unfolding s' by (simp add: tick_defs started_eq)
  have r: "run example_cw [?a] s' = Inr ?S1"
    unfolding s' by (simp add: tick_defs started_eq)
  from imp [OF q] r have on: "relayState ?S1 ! 0 = onState ! 0" "stayOn ?S1 ! 0"
    by simp_all
  from skip [OF on(2)] have "relay_check example_cw (millis ?S1) 0 ?S1 = ?S1" .
  with h2 q r on show ?thesis
    unfolding s' using pe l [unfolded s']
    by (intro exI [of _ ?S0] exI [of _ ?S'] exI [of _ ?S1]) simp
qed

text \<open>
  C4. For each relay \<open>r\<close>, in a tick that accepts its "on for the relay period" key,
  \<open>processKey\<close> returns with relay \<open>r\<close> on, not held, and its deadline at \<open>millis()\<close> +
  \<open>RELAY_PERIOD\<close>. Let further ticks follow in which no key is accepted. Once at least
  \<open>RELAY_PERIOD\<close> milliseconds have passed since the arming at the start of a tick, then
  after that tick and the next one, the counter having moved on in between (and the second
  starting at most \<open>RELAY_PERIOD\<close> + 2^31 ms after the arming), relay \<open>r\<close> reads off and the
  write of the off level to its pin, which only \<open>relayOff r\<close> performs, has been made
  since the arming. A single tick suffices when it starts more than \<open>RELAY_PERIOD\<close>
  milliseconds after the arming.
\<close>

theorem timed_relay_auto_off:
  assumes "r < numRelays" and "key_accepted inp s" and "dtmfKey s = timedKey r"
    and "arrays_ok s"
  shows "\<exists>s0 s'.
           processKey t (adc inp) (snd (checkDTMF (sample inp) s)) = Inr s0 \<and>
           relayState s0 ! r = onState ! r \<and> \<not> stayOn s0 ! r \<and>
           nextRelay s0 ! r = millis s0 + RELAY_PERIOD \<and>
           loop t inp s = Inr s' \<and>
           (\<forall>ins s1 i1 s2 i2.
              quiet t ins s' \<longrightarrow> run t ins s' = Inr s1 \<longrightarrow>
              unat RELAY_PERIOD \<le> unat (millis s1 - millis s0) \<longrightarrow>
              \<not> key_accepted i1 s1 \<longrightarrow> loop t i1 s1 = Inr s2 \<longrightarrow>
              \<not> key_accepted i2 s2 \<longrightarrow>
              0 < unat (millis s2 - millis s1) \<longrightarrow>
              unat (millis s1 - millis s0) + unat (millis s2 - millis s1)
                \<le> unat RELAY_PERIOD + 2 ^ 31 \<longrightarrow>
              (\<exists>s3. loop t i2 s2 = Inr s3 \<and>
                    relayState s3 ! r = lnot (onState ! r) \<and>
                    DigitalWrite (relayPin ! r) (lnot (onState ! r))
                      \<in> set (drop (length (trace s0)) (trace s3)))) \<and>
           (\<forall>ins s1 i.
              quiet t ins s' \<longrightarrow> run t ins s' = Inr s1 \<longrightarrow> \<not> key_accepted i s1 \<longrightarrow>
              unat RELAY_PERIOD < unat (millis s1 - millis s0) \<longrightarrow>
              unat (millis s1 - millis s0) \<le> unat RELAY_PERIOD + 2 ^ 31 \<longrightarrow>
              (\<exists>s2. loop t i s1 = Inr s2 \<and>
                    relayState s2 ! r = lnot (onState ! r) \<and>
                    DigitalWrite (relayPin ! r) (lnot (onState ! r))
                      \<in> set (drop (length (trace s0)) (trace s2))))"
proof -
  from accepted_timed [OF assms, of t] obtain s0 s' where
    p: "processKey t (adc inp) (snd (checkDTMF (sample inp) s)) = Inr s0" and
    on: "relayState s0 ! r = onState ! r" "\<not> stayOn s0 ! r"
      "nextRelay s0 ! r = millis s0 + RELAY_PERIOD" and
    l: "loop t inp s = Inr s'" and
    a: "armed_or_off r (millis s0 + RELAY_PERIOD) (length (trace s0)) s'"
    by blast
  have two: "\<exists>s3. loop t i2 s2 = Inr s3 \<and>
                    relayState s3 ! r = lnot (onState ! r) \<and>
                    DigitalWrite (relayPin ! r) (lnot (onState ! r))
                      \<in> set (drop (length (trace s0)) (trace s3))"
    if "quiet t ins s'" "run t ins s' = Inr s1"
      "unat RELAY_PERIOD \<le> unat (millis s1 - millis s0)"
      "\<not> key_accepted i1 s1" "loop t i1 s1 = Inr s2" "\<not> key_accepted i2 s2"
      "0 < unat (millis s2 - millis s1)"
      "unat (millis s1 - millis s0) + unat (millis s2 - millis s1)
         \<le> unat RELAY_PERIOD + 2 ^ 31" for ins s1 i1 s2 i2
  proof -
    from timed_two_ticks [OF assms(1) a that] obtain s3 where
      "loop t i2 s2 = Inr s3" "switched_off r (length (trace s0)) s3" by blast
    then show ?thesis unfolding switched_off_def by blast
  qed
  have one: "\<exists>s2. loop t i s1 = Inr s2 \<and>
                    relayState s2 ! r = lnot (onState ! r) \<and>
                    DigitalWrite (relayPin ! r) (lnot (onState ! r))
                      \<in> set (drop (length (trace s0)) (trace s2))"
    if "quiet t ins s'" "run t ins s' = Inr s1" "\<not> key_accepted i s1"
      "unat RELAY_PERIOD < unat (millis s1 - millis s0)"
      "unat (millis s1 - millis s0) \<le> unat RELAY_PERIOD + 2 ^ 31" for ins s1 i
  proof -
    from timed_run [OF assms(1) a that] obtain s2 where
      "loop t i s1 = Inr s2" "switched_off r (length (trace s0)) s2" by blast
    then show ?thesis unfolding switched_off_def by blast
  qed
  show ?thesis
    using p on l two one by blast
qed

theorem timed_relay_auto_off_witness:
  "\<exists>s0 s' s1 s2 s3.
     key_accepted \<lparr>sample = 0, adc = 0, idle = 1\<rparr>
       (started\<lparr>millis := 10, dtmfKey := ch CHR ''5'', waitForSpace := True\<rparr>) \<and>
     processKey example_cw 0
       (started\<lparr>millis := 10, dtmfKey := ch CHR ''5'', waitForSpace := False\<rparr>) = Inr s0 \<and>
     millis s0 = 2680 \<and> nextRelay s0 ! 1 = 302680 \<and>
     loop example_cw \<lparr>sample = 0, adc = 0, idle = 1\<rparr>
       (started\<lparr>millis := 10, dtmfKey := ch CHR ''5'', waitForSpace := True\<rparr>) = Inr s' \<and>
     quiet example_cw [\<lparr>sample = 0, adc = 0, idle = 299999\<rparr>] s' \<and>
     run example_cw [\<lparr>sample = 0, adc = 0, idle = 299999\<rparr>] s' = Inr s1 \<and>
     millis s1 = 302680 \<and>
     unat RELAY_PERIOD \<le> unat (millis s1 - millis s0) \<and>
     \<not> key_accepted \<lparr>sample = 0, adc = 0, idle = 1\<rparr> s1 \<and>
     loop example_cw \<lparr>sample = 0, adc = 0, idle = 1\<rparr> s1 = Inr s2 \<and>
     millis s2 = 303737 \<and> relayState s2 ! 1 = onState ! 1 \<and>
     \<not> key_accepted \<lparr>sample = 0, adc = 0, idle = 1\<rparr> s2 \<and>
     0 < unat (millis s2 - millis s1) \<and>
     unat (millis s1 - millis s0) + unat (millis s2 - millis s1)
       \<le> unat RELAY_PERIOD + 2 ^ 31 \<and>
     quiet example_cw [\<lparr>sample = 0, adc = 0, idle = 299999\<rparr>,
                       \<lparr>sample = 0, adc = 0, idle = 1\<rparr>] s' \<and>
     run example_cw [\<lparr>sample = 0, adc = 0, idle = 299999\<rparr>,
                     \<lparr>sample = 0, adc = 0, idle = 1\<rparr>] s' = Inr s2 \<and>
     unat RELAY_PERIOD < unat (millis s2 - millis s0) \<and>
     unat (millis s2 - millis s0) \<le> unat RELAY_PERIOD + 2 ^ 31 \<and>
     loop example_cw \<lparr>sample = 0, adc = 0, idle = 1\<rparr> s2 = Inr s3 \<and>
     relayState s3 ! 1 = lnot (onState ! 1) \<and>
     DigitalWrite (relayPin ! 1) (lnot (onState ! 1))
       \<in> set (drop (length (trace s0)) (trace s3))"
proof -
  let ?s = "started\<lparr>millis := 10, dtmfKey := ch CHR ''5'', waitForSpace := True\<rparr>"
  let ?i = "\<lparr>sample = 0, adc = 0, idle = 1\<rparr> :: input"
  let ?a = "\<lparr>sample = 0, adc = 0, idle = 299999\<rparr> :: input"
  let ?S0 = "started\<lparr>millis := 2680,
      trace := trace started @ Delay 500 # DigitalWrite P3 0 # keying example_cw onMsg 0x32,
      nextID := 30910, relayState := [1, 0], nextRelay := [0, 302680]\<rparr>"
  let ?S' = "?S0\<lparr>millis := 2681, trace := trace ?S0 @ [SleepIdle], nextDTMF := 110\<rparr>"
  let ?S1 = "?S'\<lparr>millis := 302680, trace := trace ?S' @ [SleepIdle], nextDTMF := 2781\<rparr>"
  let ?S2 = "?S1\<lparr>millis := 303737,
      trace := trace ?S1 @ keying example_cw idMsg 0 @ [SleepIdle],
      nextDTMF := 302780, nextID := 332680, idNeeded := False\<rparr>"
  have h1: "1 < numRelays" by (simp add: numRelays_2)
  have h2: "key_accepted ?i ?s"
    by (simp add: key_accepted_def checkDTMF_def started_eq ch_def)
  have h3: "dtmfKey ?s = timedKey 1" by (simp add: timedKey_def)
  have h4: "arrays_ok ?s" by (simp add: arrays_ok_def started_eq numRelays_2)
  have c: "snd (checkDTMF (sample ?i) ?s)
      = started\<lparr>millis := 10, dtmfKey := ch CHR ''5'', waitForSpace := False\<rparr>"
    by (simp add: checkDTMF_def started_eq)
  from timed_relay_auto_off [OF h1 h2 h3 h4, of example_cw] obtain s0 s' where
    p: "processKey example_cw (adc ?i) (snd (checkDTMF (sample ?i) ?s)) = Inr s0" and
    l: "loop example_cw ?i ?s = Inr s'" and
    two: "\<And>ins s1 i1 s2 i2.
         quiet example_cw ins s' \<Longrightarrow> run example_cw ins s' = Inr s1 \<Longrightarrow>
         unat RELAY_PERIOD \<le> unat (millis s1 - millis s0) \<Longrightarrow>
         \<not> key_accepted i1 s1 \<Longrightarrow> loop example_cw i1 s1 = Inr s2 \<Longrightarrow>
         \<not> key_accepted i2 s2 \<Longrightarrow>
         0 < unat (millis s2 - millis s1) \<Longrightarrow>
         unat (millis s1 - millis s0) + unat (millis s2 - millis s1)
           \<le> unat RELAY_PERIOD + 2 ^ 31 \<Longrightarrow>
         \<exists>s3. loop example_cw i2 s2 = Inr s3 \<and> relayState s3 ! 1 = lnot (onState ! 1) \<and>
              DigitalWrite (relayPin ! 1) (lnot (onState ! 1))
                \<in> set (drop (length (trace s0)) (trace s3))" and
    one: "\<And>ins s1 i. quiet example_cw ins s' \<Longrightarrow> run example_cw ins s' = Inr s1 \<Longrightarrow>
         \<not> key_accepted i s1 \<Longrightarrow>
         unat RELAY_PERIOD < unat (millis s1 - millis s0) \<Longrightarrow>
         unat (millis s1 - millis s0) \<le> unat RELAY_PERIOD + 2 ^ 31 \<Longrightarrow>
         \<exists>s2. loop example_cw i s1 = Inr s2 \<and> relayState s2 ! 1 = lnot (onState ! 1) \<and>
              DigitalWrite (relayPin ! 1) (lnot (onState ! 1))
                \<in> set (drop (length (trace s0)) (trace s2))"
    by blast
  have pe: "processKey example_cw 0
      (started\<lparr>millis := 10, dtmfKey := ch CHR ''5'', waitForSpace := False\<rparr>) = Inr ?S0"
    by (simp add: key_defs)
  with p c have s0: "s0 = ?S0" by simp
  have le: "loop example_cw ?i ?s = Inr ?S'"
    by (simp add: accept_defs key_defs)
  with l have s': "s' = ?S'" by simp
  note two' = two [unfolded s0 s']
  have m0: "millis ?S0 = 2680" by simp
  have n0: "nextRelay ?S0 ! 1 = 302680" by simp
  have q: "quiet example_cw [?a] ?S'"
    by (simp add: tick_defs started_eq)
  have r: "run example_cw [?a] ?S' = Inr ?S1"
    by (simp add: tick_defs started_eq)
  have m1: "millis ?S1 = 302680" by simp
  have e1: "unat RELAY_PERIOD \<le> unat (millis ?S1 - millis ?S0)"
    by (simp add: RELAY_PERIOD_def)
  have k1: "\<not> key_accepted ?i ?S1"
    by (simp add: key_accepted_def checkDTMF_def started_eq)
  have l1: "loop example_cw ?i ?S1 = Inr ?S2"
    by (simp add: tick_defs SendMorse_eq keying_def morse_defs idMsg_def PTT_def started_eq)
  have m2: "millis ?S2 = 303737" by simp
  have on: "relayState ?S2 ! 1 = onState ! 1"
    by (simp add: onState_def LOW_def)
  have k2: "\<not> key_accepted ?i ?S2"
    by (simp add: key_accepted_def checkDTMF_def started_eq)
  have adv: "0 < unat (millis ?S2 - millis ?S1)" by simp
  have w: "unat (millis ?S1 - millis ?S0) + unat (millis ?S2 - millis ?S1)
      \<le> unat RELAY_PERIOD + 2 ^ 31"
    by (simp add: RELAY_PERIOD_def)
  have "quiet example_cw ([?a] @ [?i]) ?S'"
    using q r k1 l1 by (rule quiet_snoc)
  then have q2: "quiet example_cw [?a, ?i] ?S'" by (simp only: append.simps)
  have "run example_cw ([?a] @ [?i]) ?S' = loop example_cw ?i ?S1"
    using r by (rule run_snoc)
  then have r2: "run example_cw [?a, ?i] ?S' = Inr ?S2"
    using l1 by (simp only: append.simps)
  have w2: "unat RELAY_PERIOD < unat (millis ?S2 - millis ?S0)"
    "unat (millis ?S2 - millis ?S0) \<le> unat RELAY_PERIOD + 2 ^ 31"
    by (simp_all add: RELAY_PERIOD_def)
  from two' [OF q r e1 k1 l1 k2 adv w] obtain s3 where
    l2: "loop example_cw ?i ?S2 = Inr s3" and
    off: "relayState s3 ! 1 = lnot (onState ! 1)" and
    ev: "DigitalWrite (relayPin ! 1) (lnot (onState ! 1))
       \<in> set (drop (length (trace ?S0)) (trace s3))" by blast
  show ?thesis
    by (intro exI [of _ ?S0] exI [of _ ?S'] exI [of _ ?S1] exI [of _ ?S2] exI [of _ s3] conjI)
      (fact h2 pe m0 n0 le q r m1 e1 k1 l1 m2 on k2 adv w q2 r2 w2 l2 off ev)+
qed



section \<open>Station identification\<close>





end
